theory Spec2Isabelle
  imports Main "HOL-Library.Word"
begin


unbundle bit_operations_syntax

section \<open>Constants (config.h)\<close>

definition PAGE_SIZE :: int where "PAGE_SIZE = 4096"
definition DATA_SIZE :: nat where "DATA_SIZE = 100"
definition LEAF_MAX_KEYS :: nat where "LEAF_MAX_KEYS = 35"
definition INTERNAL_MAX_KEYS :: nat where "INTERNAL_MAX_KEYS = 100"
definition INVALID_PAGE_ID :: int where "INVALID_PAGE_ID = - 1"
definition META_ROOT_OFFSET :: int where "META_ROOT_OFFSET = 0"
definition META_NEXT_PAGE :: int where "META_NEXT_PAGE = 8"
definition META_FREE_LIST_HEAD :: int where "META_FREE_LIST_HEAD = 16"
definition FREE_PAGE_NEXT_OFFSET :: int where "FREE_PAGE_NEXT_OFFSET = 0"
definition LEAF_MIN_KEYS :: nat where "LEAF_MIN_KEYS = (LEAF_MAX_KEYS + 1) div 2"
definition INTERNAL_MIN_KEYS :: nat where "INTERNAL_MIN_KEYS = (INTERNAL_MAX_KEYS + 1) div 2"

section \<open>Bytes and little-endian integers\<close>

text \<open>
  The code moves integers in and out of raw buffers with \<open>std::memcpy\<close>; on the
  little-endian target this is the byte sequence below.  A mapped file or a raw buffer
  is a function from byte offsets to bytes; a block of bytes is a list.
\<close>

type_synonym byte = "8 word"
type_synonym memory = "int \<Rightarrow> byte"

fun bytes_of_word :: "nat \<Rightarrow> 'a::len word \<Rightarrow> byte list" where
  "bytes_of_word 0 w = []"
| "bytes_of_word (Suc n) w = ucast w # bytes_of_word n (drop_bit 8 w)"

fun word_of_bytes :: "byte list \<Rightarrow> 'a::len word" where
  "word_of_bytes [] = 0"
| "word_of_bytes (b # bs) = ucast b OR push_bit 8 (word_of_bytes bs)"

definition mem_read :: "memory \<Rightarrow> int \<Rightarrow> nat \<Rightarrow> byte list" where
  "mem_read m off n = map (\<lambda>i. m (off + int i)) [0..<n]"

definition mem_write :: "memory \<Rightarrow> int \<Rightarrow> byte list \<Rightarrow> memory" where
  "mem_write m off bs =
     (\<lambda>a. if off \<le> a \<and> a < off + int (length bs) then bs ! nat (a - off) else m a)"

definition read64 :: "memory \<Rightarrow> int \<Rightarrow> int" where
  "read64 m off = sint (word_of_bytes (mem_read m off 8) :: 64 word)"

definition write64 :: "memory \<Rightarrow> int \<Rightarrow> int \<Rightarrow> memory" where
  "write64 m off v = mem_write m off (bytes_of_word 8 (word_of_int v :: 64 word))"

definition memset0 :: "memory \<Rightarrow> int \<Rightarrow> int \<Rightarrow> memory" where
  "memset0 m off len = mem_write m off (replicate (nat len) 0)"

section \<open>DiskManager (disk_manager.cpp)\<close>

text \<open>
  The state of a \<open>DiskManager\<close> is the mapped file and its length.  The code reaches
  the mapping through raw pointers (\<open>mapped_ + offset\<close>).  \<open>PageData\<close> checks the
  range and throws \<open>std::out_of_range\<close>; \<open>FreePage\<close>, \<open>ReclaimPage\<close> and
  \<open>AllocatePage\<close> do not check, and an access that leaves the mapping has no defined
  behaviour: the model stops there with \<open>Unmapped\<close>, as it stops with \<open>Overflow\<close>
  where \<open>int64_t\<close> arithmetic leaves the type.  The metadata accessors touch
  bytes 0 to 23 of the mapping, which the constructor makes at least one page long for a
  file it creates.
\<close>

record disk =
  mapped :: memory
  file_size :: int

datatype fault = OutOfRange | Unmapped | Overflow

text \<open>The bytes \<open>off\<close>, ..., \<open>off + len - 1\<close> lie in the mapping.\<close>

definition in_mapping :: "disk \<Rightarrow> int \<Rightarrow> int \<Rightarrow> bool" where
  "in_mapping d off len = (0 \<le> off \<and> off + len \<le> file_size d)"

definition PageData :: "disk \<Rightarrow> int \<Rightarrow> fault + int" where
  "PageData d offset =
     (if offset < 0 \<or> offset + PAGE_SIZE > file_size d then Inl OutOfRange else Inr offset)"

definition RootOffset :: "disk \<Rightarrow> int" where
  "RootOffset d = read64 (mapped d) META_ROOT_OFFSET"

definition SetRootOffset :: "disk \<Rightarrow> int \<Rightarrow> disk" where
  "SetRootOffset d offset = d\<lparr>mapped := write64 (mapped d) META_ROOT_OFFSET offset\<rparr>"

definition NextPageOffset :: "disk \<Rightarrow> int" where
  "NextPageOffset d = read64 (mapped d) META_NEXT_PAGE"

definition SetNextPageOffset :: "disk \<Rightarrow> int \<Rightarrow> disk" where
  "SetNextPageOffset d offset = d\<lparr>mapped := write64 (mapped d) META_NEXT_PAGE offset\<rparr>"

definition FreeListHead :: "disk \<Rightarrow> int" where
  "FreeListHead d = read64 (mapped d) META_FREE_LIST_HEAD"

definition SetFreeListHead :: "disk \<Rightarrow> int \<Rightarrow> disk" where
  "SetFreeListHead d offset = d\<lparr>mapped := write64 (mapped d) META_FREE_LIST_HEAD offset\<rparr>"

text \<open>
  \<open>EnsureCapacity\<close>: geometric growth; \<open>ftruncate\<close> extends the file with zero bytes.
  A failing \<open>ftruncate\<close> or \<open>mmap\<close> is a failure of the environment and is not modelled.
\<close>

definition EnsureCapacity :: "disk \<Rightarrow> int \<Rightarrow> disk" where
  "EnsureCapacity d required =
     (if required \<le> file_size d then d
      else let min_size = ((required + PAGE_SIZE - 1) div PAGE_SIZE) * PAGE_SIZE;
               new_size = max min_size (max (file_size d * 2) (2 ^ 20));
               new_size' = ((new_size + PAGE_SIZE - 1) div PAGE_SIZE) * PAGE_SIZE
           in \<lparr>mapped = (\<lambda>a. if a < file_size d then mapped d a else 0),
               file_size = new_size'\<rparr>)"

text \<open>\<open>FreePage\<close> writes the eight bytes of the link at \<open>mapped_ + page_offset\<close>.\<close>

definition FreePage :: "disk \<Rightarrow> int \<Rightarrow> fault + disk" where
  "FreePage d page_offset =
     (if page_offset < PAGE_SIZE then Inr d
      else if \<not> in_mapping d (page_offset + FREE_PAGE_NEXT_OFFSET) 8 then Inl Unmapped
      else let old_head = FreeListHead d;
               d1 = d\<lparr>mapped := write64 (mapped d) (page_offset + FREE_PAGE_NEXT_OFFSET) old_head\<rparr>
           in Inr (SetFreeListHead d1 page_offset))"

text \<open>\<open>ReclaimPage\<close> reads the eight bytes of the link at \<open>mapped_ + head\<close>.\<close>

definition ReclaimPage :: "disk \<Rightarrow> fault + int \<times> disk" where
  "ReclaimPage d =
     (let head = FreeListHead d
      in if head = INVALID_PAGE_ID then Inr (INVALID_PAGE_ID, d)
         else if \<not> in_mapping d (head + FREE_PAGE_NEXT_OFFSET) 8 then Inl Unmapped
         else let next = read64 (mapped d) (head + FREE_PAGE_NEXT_OFFSET)
              in Inr (head, SetFreeListHead d next))"

text \<open>\<open>AllocatePage\<close> clears \<open>PAGE_SIZE\<close> bytes at \<open>mapped_ + reclaimed\<close> or \<open>mapped_ + next\<close>.\<close>

definition AllocatePage :: "disk \<Rightarrow> fault + int \<times> disk" where
  "AllocatePage d =
     (case ReclaimPage d of
        Inl e \<Rightarrow> Inl e
      | Inr (reclaimed, d1) \<Rightarrow>
          if reclaimed \<noteq> INVALID_PAGE_ID
          then (if \<not> in_mapping d1 reclaimed PAGE_SIZE then Inl Unmapped
                else Inr (reclaimed, d1\<lparr>mapped := memset0 (mapped d1) reclaimed PAGE_SIZE\<rparr>))
          else let next = NextPageOffset d1;
                   new_next = next + PAGE_SIZE
               in if 2 ^ 63 \<le> new_next then Inl Overflow
                  else let d2 = EnsureCapacity d1 new_next
                       in if \<not> in_mapping d2 next PAGE_SIZE then Inl Unmapped
                          else let d3 = d2\<lparr>mapped := memset0 (mapped d2) next PAGE_SIZE\<rparr>
                               in Inr (next, SetNextPageOffset d3 new_next))"

text \<open>A file as the constructor leaves it when it creates it: one metadata page.\<close>

definition new_disk :: disk where
  "new_disk =
     SetFreeListHead (SetNextPageOffset (SetRootOffset
       \<lparr>mapped = (\<lambda>a. 0), file_size = PAGE_SIZE\<rparr> INVALID_PAGE_ID) PAGE_SIZE) INVALID_PAGE_ID"

section \<open>WriteAheadLog (wal.h, wal.cpp)\<close>

subsection \<open>CRC32\<close>

definition kCRC32Table :: "32 word list" where
  "kCRC32Table =
    [
     0x00000000, 0x77073096, 0xEE0E612C, 0x990951BA, 0x076DC419, 0x706AF48F,
     0xE963A535, 0x9E6495A3, 0x0EDB8832, 0x79DCB8A4, 0xE0D5E91B, 0x97D2D988,
     0x09B64C2B, 0x7EB17CBE, 0xE7B82D09, 0x90BF1D91, 0x1DB71064, 0x6AB020F2,
     0xF3B97148, 0x84BE41DE, 0x1ADAD47D, 0x6DDDE4EB, 0xF4D4B551, 0x83D385C7,
     0x136C9856, 0x646BA8C0, 0xFD62F97A, 0x8A65C9EC, 0x14015C4F, 0x63066CD9,
     0xFA0F3D63, 0x8D080DF5, 0x3B6E20C8, 0x4C69105E, 0xD56041E4, 0xA2677172,
     0x3C03E4D4, 0x4B04D442, 0xD20D85FD, 0xA50AB56B, 0x35B5A8FA, 0x42B2986C,
     0xDBBBB9D6, 0xACBCB9C6, 0x32D86CE3, 0x45DF5C75, 0xDCD60DCF, 0xABD13D59,
     0x26D930AC, 0x51DE003A, 0xC8D75180, 0xBFD06116, 0x21B4F6B5, 0x56B3C423,
     0xCFBA9599, 0xB8BDA50F, 0x2802B89E, 0x5F058808, 0xC60CD9B2, 0xB10BE924,
     0x2F6F7C87, 0x58684C11, 0xC1611DAB, 0xB6662D3D, 0x76DC4190, 0x01DB7106,
     0x98D220BC, 0xEFD5102A, 0x71B18589, 0x06B6B51F, 0x9FBFE4A5, 0xE8B8D433,
     0x7807C9A2, 0x0F00F934, 0x9609A88E, 0xE10E9818, 0x7F6A0D69, 0x086D3D2D,
     0x91646C97, 0xE6635C01, 0x6B6B51F4, 0x1C6C6162, 0x856530D8, 0xF262004E,
     0x6C0695ED, 0x1B01A57B, 0x8208F4C1, 0xF50FC457, 0x65B0D9C6, 0x12B7E950,
     0x8BBEB8EA, 0xFCB9887C, 0x62DD1DDF, 0x15DA2D49, 0x8CD37CF3, 0xFBD44C65,
     0x4DB26158, 0x3AB551CE, 0xA3BC0074, 0xD4BB30E2, 0x4ADFA541, 0x3DD895D7,
     0xA4D1C46D, 0xD3D6F4FB, 0x4369E96A, 0x346ED9FC, 0xAD678846, 0xDA60B8D0,
     0x44042D73, 0x33031DE5, 0xAA0A4C5F, 0xDD0D7822, 0x3B75BD5A, 0x4C72B68C,
     0xD5DB596A, 0xA2D85A5C, 0x570D3F9E, 0x2000A7C8, 0xB966D409, 0xCE61E49F,
     0x5EDEF90E, 0x29D9C998, 0xB0D09822, 0xC7D7A8B4, 0x59B33D17, 0x2EB40D81,
     0xB7BD5C3B, 0xC0BA6CAD, 0xEDB88320, 0x9ABFB3B6, 0x03B6E20C, 0x74B1D29A,
     0xEAD54739, 0x9DD277AF, 0x04DB2615, 0x73DC1683, 0xE3630B12, 0x94643B84,
     0x0D6D6A3E, 0x7A6A5AA8, 0xE40ECF0B, 0x9309FF9D, 0x0A00AE27, 0x7D079EB1,
     0xF00F9344, 0x8708A3D2, 0x1E01F268, 0x6906C2FE, 0xF762575D, 0x806567CB,
     0x196C3671, 0x6E6B06E7, 0xFED41B76, 0x89D32BE0, 0x10DA7A5A, 0x67DD4ACC,
     0xF9B9DF6F, 0x8EBEEFF9, 0x17B7BE43, 0x60B08ED5, 0xD6D6A3E8, 0xA1D1937E,
     0x38D8C2C4, 0x4FDFF252, 0xD1BB67F1, 0xA6BC5767, 0x3FB506DD, 0x48B2364B,
     0xD80D2BDA, 0xAF0A1B4C, 0x36034AF6, 0x41047A60, 0xDF60EFC3, 0xA867DF55,
     0x316E8EEF, 0x4669BE79, 0xCB61B38C, 0xBC66831A, 0x256FD2A0, 0x5268E236,
     0xCC0C7795, 0xBB0B4703, 0x220216B9, 0x5505262F, 0xC5BA3BBE, 0xB2BD0B28,
     0x2BB45A92, 0x5CB36A04, 0xC2D7FFA7, 0xB5D0CF31, 0x2CD99E8B, 0x5BDEAE1D,
     0x9B64C2B0, 0xEC63F226, 0x756AA39C, 0x026D930A, 0x9C0906A9, 0xEB0E363F,
     0x72076785, 0x05005713, 0x95BF4A82, 0xE2B87A14, 0x7BB12BAE, 0x0CB61B38,
     0x92D28E9B, 0xE5D5BE0D, 0x7CDCEFB8, 0x0BDBDF21, 0x86D3D2D4, 0xF1D4E242,
     0x68DDB3F6, 0x1FDA836E, 0x81BE16CD, 0xF6B9265B, 0x6FB077E1, 0x18B74777,
     0x88085AE6, 0xFF0F6B70, 0x66063BCA, 0x11010B5C, 0x8F659EFF, 0xF862AE69,
     0x616BFFD3, 0x166CCF45, 0xA00AE278, 0xD70DD2EE, 0x4E048354, 0x3903B3C2,
     0xA7672661, 0xD06016F7, 0x4969474D, 0x3E6E77DB, 0xAED16A4A, 0xD9D65ADC,
     0x40DF0B66, 0x37D83BF0, 0xA9BCAE53, 0xDEBB9EC5, 0x47B2CF7F, 0x30B5FFE9,
     0xBDBDF21C, 0xCABAC28A, 0x53B39330, 0x24B4A3A6, 0xBAD03605, 0xCDD706FF,
     0x54DE5729, 0x23D967BF, 0xB3667A2E, 0xC4614AB8, 0x5D681B02, 0x2A6F2B94,
     0xB40BBE37, 0xC30C8EA1, 0x5A05DF1B, 0x2D02EF8D]"

fun crc_loop :: "32 word \<Rightarrow> byte list \<Rightarrow> 32 word" where
  "crc_loop crc [] = crc"
| "crc_loop crc (b # buf) =
     crc_loop (kCRC32Table ! unat ((crc XOR ucast b) AND 0xFF) XOR drop_bit 8 crc) buf"

definition CRC32 :: "byte list \<Rightarrow> 32 word" where
  "CRC32 buf = crc_loop 0xFFFFFFFF buf XOR 0xFFFFFFFF"

subsection \<open>On-disk structures\<close>

text \<open>
  \<open>LogRecordType\<close> is an enumeration over \<open>uint32_t\<close>; a record read from the file
  carries whatever number was stored, so the type field is a 32-bit word.
\<close>

definition kInvalid :: "32 word" where "kInvalid = 0"
definition kPageWrite :: "32 word" where "kPageWrite = 1"
definition kCheckpointBegin :: "32 word" where "kCheckpointBegin = 2"
definition kCheckpointEnd :: "32 word" where "kCheckpointEnd = 3"

record LogRecordHeader =
  hdr_lsn :: "64 word"
  hdr_type :: "32 word"
  hdr_padding :: "32 word"
  hdr_page_id :: int
  hdr_data_len :: "32 word"
  hdr_checksum :: "32 word"

record RecoveryRecord =
  rec_header :: LogRecordHeader
  rec_data :: "byte list"

text \<open>
  The 32 bytes of a \<open>LogRecordHeader\<close>: \<open>lsn\<close> at 0, \<open>type\<close> at 8, four bytes of
  padding, \<open>page_id\<close> at 16, \<open>data_len\<close> at 24, \<open>checksum\<close> at 28.  The code writes
  and checksums the object as 32 raw bytes, padding included, so the record keeps the
  padding as a field of its own (\<open>hdr_padding\<close>); \<open>LogRecordHeader hdr{}\<close> sets the
  members and leaves the padding to the compiler.  A header read from the file has the
  padding of the file, and the copy \<open>check_hdr = hdr\<close> of this trivially copyable
  object is taken to copy all 32 bytes.  The 16 bytes of a \<open>WALFileHeader\<close> are
  \<open>magic\<close>, \<open>version\<close>, \<open>checkpoint_lsn\<close>, without padding.
\<close>

definition header_bytes :: "LogRecordHeader \<Rightarrow> byte list" where
  "header_bytes h =
     bytes_of_word 8 (hdr_lsn h) @ bytes_of_word 4 (hdr_type h) @
     bytes_of_word 4 (hdr_padding h) @
     bytes_of_word 8 (word_of_int (hdr_page_id h) :: 64 word) @
     bytes_of_word 4 (hdr_data_len h) @ bytes_of_word 4 (hdr_checksum h)"

definition decode_header :: "byte list \<Rightarrow> LogRecordHeader" where
  "decode_header hb =
     \<lparr>hdr_lsn = word_of_bytes (take 8 hb),
      hdr_type = word_of_bytes (take 4 (drop 8 hb)),
      hdr_padding = word_of_bytes (take 4 (drop 12 hb)),
      hdr_page_id = sint (word_of_bytes (take 8 (drop 16 hb)) :: 64 word),
      hdr_data_len = word_of_bytes (take 4 (drop 24 hb)),
      hdr_checksum = word_of_bytes (take 4 (drop 28 hb))\<rparr>"

text \<open>The header as read, with its checksum field set to zero (\<open>check_hdr\<close>).\<close>

definition zero_checksum :: "byte list \<Rightarrow> byte list" where
  "zero_checksum hb = take 28 hb @ [0, 0, 0, 0]"

definition file_header_bytes :: "64 word \<Rightarrow> byte list" where
  "file_header_bytes cp =
     bytes_of_word 4 (0x57414C31 :: 32 word) @ bytes_of_word 4 (1 :: 32 word) @ bytes_of_word 8 cp"

subsection \<open>The log\<close>

text \<open>
  The state of a \<open>WriteAheadLog\<close>: the bytes of the file and the members of the object
  (\<open>next_lsn_\<close>, \<open>checkpoint_lsn_\<close>, \<open>bytes_written_\<close>, \<open>records_written_\<close>, written here
  without the trailing underscore).
  Appends go to the end of the file (every seek of the code that precedes an append is a
  seek to the end).  The functions that build a record header take the four bytes that
  the padding of the local \<open>hdr\<close> happens to hold as an argument (\<open>pad\<close>).  Failing \<open>write\<close>, \<open>fsync\<close> and \<open>ftruncate\<close> calls are failures of
  the environment and are not modelled; \<open>fsync\<close> has no effect on the state.
\<close>

record WriteAheadLog =
  wal_file :: "byte list"
  next_lsn :: "64 word"
  checkpoint_lsn :: "64 word"
  bytes_written :: nat
  records_written :: nat

definition new_wal :: WriteAheadLog where
  "new_wal = \<lparr>wal_file = file_header_bytes 0, next_lsn = 1, checkpoint_lsn = 0,
              bytes_written = 0, records_written = 0\<rparr>"

definition AppendRecord ::
  "WriteAheadLog \<Rightarrow> 32 word \<Rightarrow> 32 word \<Rightarrow> int \<Rightarrow> byte list \<Rightarrow> WriteAheadLog" where
  "AppendRecord w pad ty page_id dat =
     (let hdr = \<lparr>hdr_lsn = next_lsn w, hdr_type = ty, hdr_padding = pad, hdr_page_id = page_id,
                 hdr_data_len = of_nat (length dat), hdr_checksum = 0\<rparr>;
          crc = CRC32 (header_bytes hdr);
          crc' = (if dat \<noteq> [] then crc XOR CRC32 dat else crc);
          hdr' = hdr\<lparr>hdr_checksum := crc'\<rparr>
      in w\<lparr>wal_file := wal_file w @ header_bytes hdr' @ dat,
           next_lsn := next_lsn w + 1,
           bytes_written := bytes_written w + 32 + length dat,
           records_written := records_written w + 1\<rparr>)"


definition Truncate :: "WriteAheadLog \<Rightarrow> WriteAheadLog" where
  "Truncate w = w\<lparr>wal_file := file_header_bytes (checkpoint_lsn w)\<rparr>"

definition BeginCheckpoint :: "WriteAheadLog \<Rightarrow> 32 word \<Rightarrow> 64 word \<times> WriteAheadLog" where
  "BeginCheckpoint w pad = (next_lsn w, AppendRecord w pad kCheckpointBegin INVALID_PAGE_ID [])"

definition EndCheckpoint :: "WriteAheadLog \<Rightarrow> 32 word \<Rightarrow> 64 word \<times> WriteAheadLog" where
  "EndCheckpoint w pad =
     (let lsn = next_lsn w;
          w1 = AppendRecord w pad kCheckpointEnd INVALID_PAGE_ID [];
          w2 = w1\<lparr>checkpoint_lsn := lsn,
                  wal_file := file_header_bytes lsn @ drop 16 (wal_file w1)\<rparr>
      in (lsn, Truncate w2))"

subsection \<open>Recovery\<close>

function parse_records :: "byte list \<Rightarrow> RecoveryRecord list" where
  "parse_records bs =
     (if length bs < 32 then []
      else if hdr_lsn (decode_header (take 32 bs)) = 0 \<or>
              hdr_type (decode_header (take 32 bs)) > kCheckpointEnd then []
      else if hdr_data_len (decode_header (take 32 bs)) > 0 then
        (if length (drop 32 bs) < unat (hdr_data_len (decode_header (take 32 bs))) then []
         else if CRC32 (zero_checksum (take 32 bs)) XOR
                 CRC32 (take (unat (hdr_data_len (decode_header (take 32 bs)))) (drop 32 bs))
                 \<noteq> hdr_checksum (decode_header (take 32 bs)) then []
         else \<lparr>rec_header = decode_header (take 32 bs),
               rec_data = take (unat (hdr_data_len (decode_header (take 32 bs)))) (drop 32 bs)\<rparr>
              # parse_records (drop (unat (hdr_data_len (decode_header (take 32 bs)))) (drop 32 bs)))
      else if CRC32 (zero_checksum (take 32 bs)) \<noteq> hdr_checksum (decode_header (take 32 bs))
        then []
      else \<lparr>rec_header = decode_header (take 32 bs), rec_data = []\<rparr>
           # parse_records (drop 32 bs))"
  by pat_completeness auto
termination
  by (relation "measure length") auto

declare parse_records.simps [simp del]

definition ReadAllRecords :: "WriteAheadLog \<Rightarrow> RecoveryRecord list" where
  "ReadAllRecords w = parse_records (drop 16 (wal_file w))"

text \<open>
  The loop \<open>while (disk.NextPageOffset() <= page_id) disk.AllocatePage()\<close> need not
  end (\<open>AllocatePage\<close> serves the free list first): not returning is \<open>None\<close>.
\<close>

partial_function (option) allocate_up_to :: "disk \<Rightarrow> int \<Rightarrow> (fault + disk) option" where
  "allocate_up_to d page_id =
     (if NextPageOffset d \<le> page_id
      then (case AllocatePage d of
              Inl e \<Rightarrow> Some (Inl e)
            | Inr (p, d1) \<Rightarrow> allocate_up_to d1 page_id)
      else Some (Inr d))"

definition skipped :: "64 word \<Rightarrow> RecoveryRecord \<Rightarrow> bool" where
  "skipped redo_after_lsn r =
     (hdr_lsn (rec_header r) \<le> redo_after_lsn \<or> hdr_type (rec_header r) \<noteq> kPageWrite \<or>
      hdr_page_id (rec_header r) = INVALID_PAGE_ID \<or> int (length (rec_data r)) \<noteq> PAGE_SIZE)"

definition apply_record :: "disk \<Rightarrow> RecoveryRecord \<Rightarrow> (fault + disk) option" where
  "apply_record d r =
     (let page_id = hdr_page_id (rec_header r); required = page_id + PAGE_SIZE
      in if 2 ^ 63 \<le> required then Some (Inl Overflow)
         else case (if required > file_size d then allocate_up_to d page_id else Some (Inr d)) of
                None \<Rightarrow> None
              | Some (Inl e) \<Rightarrow> Some (Inl e)
              | Some (Inr d1) \<Rightarrow>
                  (case PageData d1 page_id of
                     Inl e \<Rightarrow> Some (Inl e)
                   | Inr page \<Rightarrow>
                       Some (Inr (d1\<lparr>mapped := mem_write (mapped d1) page (rec_data r)\<rparr>))))"

fun redo_records ::
  "64 word \<Rightarrow> RecoveryRecord list \<Rightarrow> disk \<Rightarrow> nat \<Rightarrow> (fault + disk \<times> nat) option" where
  "redo_records redo_after_lsn [] d pages_recovered = Some (Inr (d, pages_recovered))"
| "redo_records redo_after_lsn (r # rs) d pages_recovered =
     (if skipped redo_after_lsn r then redo_records redo_after_lsn rs d pages_recovered
      else case apply_record d r of
             None \<Rightarrow> None
           | Some (Inl e) \<Rightarrow> Some (Inl e)
           | Some (Inr d1) \<Rightarrow> redo_records redo_after_lsn rs d1 (pages_recovered + 1))"

definition last_checkpoint :: "WriteAheadLog \<Rightarrow> RecoveryRecord list \<Rightarrow> 64 word" where
  "last_checkpoint w records =
     (case find (\<lambda>r. hdr_type (rec_header r) = kCheckpointEnd) (rev records) of
        Some r \<Rightarrow> hdr_lsn (rec_header r)
      | None \<Rightarrow> checkpoint_lsn w)"

definition Recover :: "WriteAheadLog \<Rightarrow> disk \<Rightarrow> (fault + nat \<times> WriteAheadLog \<times> disk) option" where
  "Recover w d =
     (let records = ReadAllRecords w;
          redo_after_lsn = last_checkpoint w records
      in case redo_records redo_after_lsn records d 0 of
           None \<Rightarrow> None
         | Some (Inl e) \<Rightarrow> Some (Inl e)
         | Some (Inr (d', pages_recovered)) \<Rightarrow>
             (let w1 = (if records \<noteq> []
                        then w\<lparr>next_lsn := hdr_lsn (rec_header (last records)) + 1\<rparr> else w);
                  w2 = (if pages_recovered > 0 then Truncate w1 else w1)
              in Some (Inr (pages_recovered, w2, d'))))"




section \<open>BufferPool (buffer_pool.h, buffer_pool.cpp)\<close>

text \<open>
  A frame holds a copy of one page.  The page table is an association list from page
  ids to frame indices (\<open>std::unordered_map\<close>; where the code iterates over it, the
  model takes the order of the list).  \<open>lru_map_\<close> only indexes \<open>lru_list_\<close>, so the
  model keeps the list: an index has an entry in \<open>lru_map_\<close> exactly when it is in
  the list.  \<open>free_list_\<close> is a vector used as a stack (\<open>back\<close> is \<open>last\<close>).
  The pool holds a pointer to the log (\<open>wal_\<close>, set by \<open>SetWAL\<close>) and a reference
  to the disk manager; the model passes the disk explicitly and keeps the state of the
  attached log in the pool.  A returned \<open>char*\<close> into a frame is the index of the
  frame, \<open>nullptr\<close> is \<open>None\<close>.
\<close>

record PageFrame =
  page_id :: int
  pin_count :: int
  dirty :: bool
  frame_data :: "byte list"

record BufferPool =
  pool_size :: nat
  frames :: "PageFrame list"
  page_table :: "(int \<times> nat) list"
  lru_list :: "nat list"
  free_list :: "nat list"
  wal :: "WriteAheadLog option"
  hits :: nat
  misses :: nat

definition empty_frame :: PageFrame where
  "empty_frame = \<lparr>page_id = INVALID_PAGE_ID, pin_count = 0, dirty = False,
                  frame_data = replicate (nat PAGE_SIZE) 0\<rparr>"

definition new_pool :: "nat \<Rightarrow> BufferPool" where
  "new_pool n = \<lparr>pool_size = n, frames = replicate n empty_frame, page_table = [],
                 lru_list = [], free_list = rev [0..<n], wal = None, hits = 0, misses = 0\<rparr>"

definition SetWAL :: "BufferPool \<Rightarrow> WriteAheadLog \<Rightarrow> BufferPool" where
  "SetWAL bp w = bp\<lparr>wal := Some w\<rparr>"

definition table_erase :: "int \<Rightarrow> (int \<times> nat) list \<Rightarrow> (int \<times> nat) list" where
  "table_erase pid tbl = filter (\<lambda>e. fst e \<noteq> pid) tbl"

definition table_put :: "int \<Rightarrow> nat \<Rightarrow> (int \<times> nat) list \<Rightarrow> (int \<times> nat) list" where
  "table_put pid idx tbl =
     (if pid \<in> fst ` set tbl then map (\<lambda>e. if fst e = pid then (pid, idx) else e) tbl
      else tbl @ [(pid, idx)])"

definition FindVictim :: "BufferPool \<Rightarrow> nat option" where
  "FindVictim bp = (case lru_list bp of [] \<Rightarrow> None | idx # _ \<Rightarrow> Some idx)"

definition EvictFrame :: "BufferPool \<Rightarrow> disk \<Rightarrow> nat \<Rightarrow> fault + BufferPool \<times> disk" where
  "EvictFrame bp d frame_idx =
     (let f = frames bp ! frame_idx
      in case (if dirty f \<and> page_id f \<noteq> INVALID_PAGE_ID
               then (case PageData d (page_id f) of
                       Inl e \<Rightarrow> Inl e
                     | Inr disk_page \<Rightarrow>
                         Inr (d\<lparr>mapped := mem_write (mapped d) disk_page (frame_data f)\<rparr>,
                              f\<lparr>dirty := False\<rparr>))
               else Inr (d, f)) of
           Inl e \<Rightarrow> Inl e
         | Inr (d1, f1) \<Rightarrow>
             Inr (bp\<lparr>page_table := table_erase (page_id f1) (page_table bp),
                     lru_list := remove1 frame_idx (lru_list bp),
                     frames := (frames bp)[frame_idx := f1\<lparr>page_id := INVALID_PAGE_ID,
                                                          pin_count := 0\<rparr>]\<rparr>, d1))"

definition load_frame ::
  "BufferPool \<Rightarrow> disk \<Rightarrow> nat \<Rightarrow> int \<Rightarrow> fault + nat option \<times> BufferPool \<times> disk" where
  "load_frame bp d frame_idx pid =
     (case PageData d pid of
        Inl e \<Rightarrow> Inl e
      | Inr disk_page \<Rightarrow>
          Inr (Some frame_idx,
               bp\<lparr>frames := (frames bp)[frame_idx :=
                       \<lparr>page_id = pid, pin_count = 1, dirty = False,
                        frame_data = mem_read (mapped d) disk_page (nat PAGE_SIZE)\<rparr>],
                  page_table := table_put pid frame_idx (page_table bp)\<rparr>, d))"

definition FetchPage ::
  "BufferPool \<Rightarrow> disk \<Rightarrow> int \<Rightarrow> fault + nat option \<times> BufferPool \<times> disk" where
  "FetchPage bp d pid =
     (case map_of (page_table bp) pid of
        Some idx \<Rightarrow>
          Inr (Some idx,
               bp\<lparr>hits := hits bp + 1,
                  frames := (frames bp)[idx := (frames bp ! idx)
                                          \<lparr>pin_count := pin_count (frames bp ! idx) + 1\<rparr>],
                  lru_list := remove1 idx (lru_list bp)\<rparr>, d)
      | None \<Rightarrow>
          (let bp1 = bp\<lparr>misses := misses bp + 1\<rparr>
           in if free_list bp1 \<noteq> []
              then load_frame (bp1\<lparr>free_list := butlast (free_list bp1)\<rparr>) d
                     (last (free_list bp1)) pid
              else (case FindVictim bp1 of
                      None \<Rightarrow> Inr (None, bp1, d)
                    | Some frame_idx \<Rightarrow>
                        (case EvictFrame bp1 d frame_idx of
                           Inl e \<Rightarrow> Inl e
                         | Inr (bp2, d2) \<Rightarrow> load_frame bp2 d2 frame_idx pid))))"

text \<open>\<open>BufferPool::UnpinPage\<close> (the tree has a helper of the same name).\<close>

definition UnpinPage_pool :: "BufferPool \<Rightarrow> int \<Rightarrow> bool \<Rightarrow> bool \<times> BufferPool" where
  "UnpinPage_pool bp pid is_dirty =
     (case map_of (page_table bp) pid of
        None \<Rightarrow> (False, bp)
      | Some idx \<Rightarrow>
          (let f = frames bp ! idx
           in if pin_count f \<le> 0 then (False, bp)
              else let f1 = f\<lparr>dirty := (dirty f \<or> is_dirty), pin_count := pin_count f - 1\<rparr>;
                       bp1 = bp\<lparr>frames := (frames bp)[idx := f1]\<rparr>
                   in if pin_count f1 = 0
                      then (True, bp1\<lparr>lru_list := lru_list bp1 @ [idx]\<rparr>)
                      else (True, bp1)))"

definition flush_frame :: "BufferPool \<Rightarrow> disk \<Rightarrow> int \<Rightarrow> nat \<Rightarrow> fault + BufferPool \<times> disk" where
  "flush_frame bp d pid idx =
     (let f = frames bp ! idx
      in if dirty f
         then (case PageData d pid of
                 Inl e \<Rightarrow> Inl e
               | Inr disk_page \<Rightarrow>
                   Inr (bp\<lparr>frames := (frames bp)[idx := f\<lparr>dirty := False\<rparr>]\<rparr>,
                        d\<lparr>mapped := mem_write (mapped d) disk_page (frame_data f)\<rparr>))
         else Inr (bp, d))"

definition FlushPage :: "BufferPool \<Rightarrow> disk \<Rightarrow> int \<Rightarrow> fault + bool \<times> BufferPool \<times> disk" where
  "FlushPage bp d pid =
     (case map_of (page_table bp) pid of
        None \<Rightarrow> Inr (False, bp, d)
      | Some idx \<Rightarrow>
          (case flush_frame bp d pid idx of
             Inl e \<Rightarrow> Inl e
           | Inr (bp1, d1) \<Rightarrow> Inr (True, bp1, d1)))"

fun flush_entries :: "(int \<times> nat) list \<Rightarrow> BufferPool \<Rightarrow> disk \<Rightarrow> fault + BufferPool \<times> disk" where
  "flush_entries [] bp d = Inr (bp, d)"
| "flush_entries ((pid, idx) # es) bp d =
     (case flush_frame bp d pid idx of
        Inl e \<Rightarrow> Inl e
      | Inr (bp1, d1) \<Rightarrow> flush_entries es bp1 d1)"

definition FlushAllPages :: "BufferPool \<Rightarrow> disk \<Rightarrow> fault + BufferPool \<times> disk" where
  "FlushAllPages bp d = flush_entries (page_table bp) bp d"

definition install_frame ::
  "BufferPool \<Rightarrow> disk \<Rightarrow> nat \<Rightarrow> int \<Rightarrow> nat option \<times> int \<times> BufferPool \<times> disk" where
  "install_frame bp d frame_idx pid =
     (Some frame_idx, pid,
      bp\<lparr>frames := (frames bp)[frame_idx :=
              \<lparr>page_id = pid, pin_count = 1, dirty = True,
               frame_data = replicate (nat PAGE_SIZE) 0\<rparr>],
         page_table := table_put pid frame_idx (page_table bp)\<rparr>, d)"

text \<open>\<open>NewPage\<close> returns the view and, through its reference parameter, the page id.\<close>

definition NewPage :: "BufferPool \<Rightarrow> disk \<Rightarrow> fault + nat option \<times> int \<times> BufferPool \<times> disk" where
  "NewPage bp d =
     (case AllocatePage d of
        Inl e \<Rightarrow> Inl e
      | Inr (pid, d1) \<Rightarrow>
          if free_list bp \<noteq> []
          then Inr (install_frame (bp\<lparr>free_list := butlast (free_list bp)\<rparr>) d1
                      (last (free_list bp)) pid)
          else (case FindVictim bp of
                  None \<Rightarrow> Inr (None, pid, bp, d1)
                | Some frame_idx \<Rightarrow>
                    (case EvictFrame bp d1 frame_idx of
                       Inl e \<Rightarrow> Inl e
                     | Inr (bp2, d2) \<Rightarrow> Inr (install_frame bp2 d2 frame_idx pid))))"

definition DeletePage :: "BufferPool \<Rightarrow> int \<Rightarrow> bool \<times> BufferPool" where
  "DeletePage bp pid =
     (case map_of (page_table bp) pid of
        None \<Rightarrow> (True, bp)
      | Some idx \<Rightarrow>
          (let f = frames bp ! idx
           in if pin_count f > 0 then (False, bp)
              else (True,
                    bp\<lparr>lru_list := remove1 idx (lru_list bp),
                       frames := (frames bp)[idx := f\<lparr>page_id := INVALID_PAGE_ID,
                                                      pin_count := 0, dirty := False\<rparr>],
                       page_table := table_erase pid (page_table bp),
                       free_list := free_list bp @ [idx]\<rparr>)))"

section \<open>BPlusTree (page.h, bplus_tree.cpp)\<close>

subsection \<open>Pages as the typed wrappers present them\<close>

text \<open>
  \<open>LeafPage\<close> and \<open>InternalPage\<close> are views of a page buffer.  The model of the
  tree keeps a page as what the view shows: a leaf is its \<open>num_keys\<close> records (key and
  \<open>DATA_SIZE\<close> bytes of payload) and its \<open>next_leaf\<close>; an internal node is child 0
  and its \<open>num_keys\<close> slots, slot \<open>i\<close> carrying key \<open>i\<close> and child \<open>i + 1\<close>.
  A page of zero bytes is an internal node without keys whose child 0 is 0.  A page on
  the free list shows its link in its first eight bytes; the model keeps the link.
  Array slots at and beyond \<open>num_keys\<close> are not part of the view.
\<close>

datatype page =
    Leaf "(int \<times> string) list" int
  | Internal int "(int \<times> int) list"
  | Freed int

definition zero_page :: page where
  "zero_page = Internal 0 []"

definition NUL :: char where
  "NUL = CHR 0x00"

text \<open>\<open>Insert\<close> pads the C string it is given to \<open>DATA_SIZE\<close> bytes.\<close>

definition padded :: "string \<Rightarrow> string" where
  "padded dat = take DATA_SIZE (takeWhile (\<lambda>c. c \<noteq> NUL) dat @ replicate DATA_SIZE NUL)"

text \<open>\<open>std::string(buf, strnlen(buf, DATA_SIZE))\<close>\<close>

definition trimmed :: "string \<Rightarrow> string" where
  "trimmed buf = takeWhile (\<lambda>c. c \<noteq> NUL) (take DATA_SIZE buf)"

datatype Status = OK | NotFound | IOError | Corruption | InvalidArg | Full

subsection \<open>The tree and its page access helpers\<close>

text \<open>
  The tree reaches its pages through \<open>PinPage\<close>, \<open>UnpinPage\<close>, \<open>AllocPage\<close> and
  \<open>DeallocPage\<close> only.  The model takes buffer pool and data file together as one
  store of pages: \<open>PinPage\<close> reads the page (it throws when the page lies outside
  the file, as \<open>FetchPage\<close> does through \<open>PageData\<close>), a dirty \<open>UnpinPage\<close> stores
  the modified view.  The pool is taken to have a frame at hand whenever the tree asks
  (the tree pins at most three pages at a time).  \<open>disk_root\<close>, \<open>disk_next\<close> and
  \<open>disk_free\<close> are the three metadata words of page 0, \<open>disk_size\<close> the length of
  the file; \<open>root_offset\<close> and \<open>next_page_offset\<close> are the members of the tree.

  Where the code would read a page through the wrapper of the other kind, or a page
  of the free list as a node, the model stops with \<open>BadPage\<close>.  The recursive descents
  carry a bound on their depth and stop with \<open>OutOfFuel\<close> when it is used up.
\<close>

datatype tfault = PageOutOfRange | BadPage | OutOfFuel

record BPlusTree =
  pages :: "int \<Rightarrow> page"
  disk_size :: int
  disk_root :: int
  disk_next :: int
  disk_free :: int
  root_offset :: int
  next_page_offset :: int

definition new_tree :: BPlusTree where
  "new_tree = \<lparr>pages = (\<lambda>p. zero_page), disk_size = PAGE_SIZE, disk_root = INVALID_PAGE_ID,
               disk_next = PAGE_SIZE, disk_free = INVALID_PAGE_ID,
               root_offset = INVALID_PAGE_ID, next_page_offset = PAGE_SIZE\<rparr>"

definition PinPage :: "BPlusTree \<Rightarrow> int \<Rightarrow> tfault + page" where
  "PinPage t pid =
     (if pid < 0 \<or> pid + PAGE_SIZE > disk_size t then Inl PageOutOfRange
      else case pages t pid of Freed l \<Rightarrow> Inl BadPage | pg \<Rightarrow> Inr pg)"

definition UnpinPage :: "BPlusTree \<Rightarrow> int \<Rightarrow> page \<Rightarrow> BPlusTree" where
  "UnpinPage t pid pg = t\<lparr>pages := (pages t)(pid := pg)\<rparr>"

definition grown_size :: "int \<Rightarrow> int \<Rightarrow> int" where
  "grown_size fsize required =
     (if required \<le> fsize then fsize
      else ((max (((required + PAGE_SIZE - 1) div PAGE_SIZE) * PAGE_SIZE)
                 (max (fsize * 2) (2 ^ 20)) + PAGE_SIZE - 1) div PAGE_SIZE) * PAGE_SIZE)"

definition AllocPage :: "BPlusTree \<Rightarrow> tfault + int \<times> BPlusTree" where
  "AllocPage t =
     (if disk_free t \<noteq> INVALID_PAGE_ID
      then (case pages t (disk_free t) of
              Freed link \<Rightarrow>
                Inr (disk_free t,
                     t\<lparr>pages := (pages t)(disk_free t := zero_page), disk_free := link,
                       next_page_offset := disk_next t\<rparr>)
            | _ \<Rightarrow> Inl BadPage)
      else Inr (disk_next t,
                t\<lparr>pages := (pages t)(disk_next t := zero_page),
                  disk_size := grown_size (disk_size t) (disk_next t + PAGE_SIZE),
                  disk_next := disk_next t + PAGE_SIZE,
                  next_page_offset := disk_next t + PAGE_SIZE\<rparr>))"

definition DeallocPage :: "BPlusTree \<Rightarrow> int \<Rightarrow> BPlusTree" where
  "DeallocPage t pid =
     (if pid < PAGE_SIZE then t
      else t\<lparr>pages := (pages t)(pid := Freed (disk_free t)), disk_free := pid\<rparr>)"

definition WriteMetadata :: "BPlusTree \<Rightarrow> BPlusTree" where
  "WriteMetadata t = t\<lparr>disk_root := root_offset t, disk_next := next_page_offset t\<rparr>"

subsection \<open>Loops over the slots of one page\<close>

text \<open>\<open>i = 0; while (i < n && key >= node.KeyAt(i)) ++i;\<close>\<close>

fun child_index :: "(int \<times> int) list \<Rightarrow> int \<Rightarrow> nat" where
  "child_index [] key = 0"
| "child_index ((k, c) # kcs) key = (if key \<ge> k then Suc (child_index kcs key) else 0)"

definition ChildAt :: "int \<Rightarrow> (int \<times> int) list \<Rightarrow> nat \<Rightarrow> int" where
  "ChildAt c0 kcs i = (if i = 0 then c0 else if i - 1 < length kcs then snd (kcs ! (i - 1)) else 0)"

definition KeyAt :: "(int \<times> 'a) list \<Rightarrow> nat \<Rightarrow> int" where
  "KeyAt slots i = (if i < length slots then fst (slots ! i) else 0)"

text \<open>\<open>for (i = 0; i < n; ++i) if (leaf.KeyAt(i) == key) ...\<close>: the first match.\<close>

fun find_record :: "(int \<times> string) list \<Rightarrow> int \<Rightarrow> string option" where
  "find_record [] key = None"
| "find_record ((k, d) # recs) key = (if k = key then Some d else find_record recs key)"

fun set_data :: "(int \<times> string) list \<Rightarrow> int \<Rightarrow> string \<Rightarrow> (int \<times> string) list" where
  "set_data [] key dat = []"
| "set_data ((k, d) # recs) key dat =
     (if k = key then (k, dat) # recs else (k, d) # set_data recs key dat)"

fun remove_record :: "(int \<times> string) list \<Rightarrow> int \<Rightarrow> (int \<times> string) list" where
  "remove_record [] key = []"
| "remove_record ((k, d) # recs) key =
     (if k = key then recs else (k, d) # remove_record recs key)"

text \<open>
  \<open>i = n - 1; while (i >= 0 && KeyAt(i) > key) { slot[i + 1] = slot[i]; --i; }\<close> followed
  by a store into slot \<open>i + 1\<close>: the slots whose keys exceed \<open>key\<close> at the end of the
  array move up by one.  \<open>shift_pos\<close> is \<open>i + 1\<close>.
\<close>

definition shift_pos :: "(int \<times> 'a) list \<Rightarrow> int \<Rightarrow> nat" where
  "shift_pos slots key = length slots - length (takeWhile (\<lambda>s. fst s > key) (rev slots))"

text \<open>
  \<open>std::lower_bound\<close> with \<open>a.k < b.k\<close>, and \<open>while (pos < size && keys[pos] < key) ++pos\<close>:
  on a sorted range both yield the number of leading keys below \<open>key\<close>.
\<close>

definition lower_bound :: "(int \<times> 'a) list \<Rightarrow> int \<Rightarrow> nat" where
  "lower_bound slots key = length (takeWhile (\<lambda>s. fst s < key) slots)"

definition insert_at :: "nat \<Rightarrow> 'a \<Rightarrow> 'a list \<Rightarrow> 'a list" where
  "insert_at pos x xs = take pos xs @ [x] @ drop pos xs"

definition remove_at :: "nat \<Rightarrow> 'a list \<Rightarrow> 'a list" where
  "remove_at pos xs = take pos xs @ drop (Suc pos) xs"

definition set_key :: "nat \<Rightarrow> int \<Rightarrow> (int \<times> 'a) list \<Rightarrow> (int \<times> 'a) list" where
  "set_key i k slots = (if i < length slots then slots[i := (k, snd (slots ! i))] else slots)"

subsection \<open>Search\<close>

fun descend :: "nat \<Rightarrow> BPlusTree \<Rightarrow> int \<Rightarrow> int \<Rightarrow> tfault + int" where
  "descend 0 t current key = Inl OutOfFuel"
| "descend (Suc fuel) t current key =
     (case PinPage t current of
        Inl e \<Rightarrow> Inl e
      | Inr (Leaf recs nx) \<Rightarrow> Inr current
      | Inr (Internal c0 kcs) \<Rightarrow>
          (let child = ChildAt c0 kcs (child_index kcs key)
           in if child < PAGE_SIZE then Inr INVALID_PAGE_ID else descend fuel t child key)
      | Inr (Freed l) \<Rightarrow> Inl BadPage)"

definition SearchLeaf :: "nat \<Rightarrow> BPlusTree \<Rightarrow> int \<Rightarrow> tfault + int" where
  "SearchLeaf fuel t key =
     (if root_offset t = INVALID_PAGE_ID then Inr INVALID_PAGE_ID
      else descend fuel t (root_offset t) key)"

text \<open>\<open>Search(key, char* data_out)\<close>: the status, and the buffer when it was filled.\<close>

definition Search :: "nat \<Rightarrow> BPlusTree \<Rightarrow> int \<Rightarrow> tfault + Status \<times> string option" where
  "Search fuel t key =
     (case SearchLeaf fuel t key of
        Inl e \<Rightarrow> Inl e
      | Inr leaf_off \<Rightarrow>
          if leaf_off = INVALID_PAGE_ID then Inr (NotFound, None)
          else (case PinPage t leaf_off of
                  Inl e \<Rightarrow> Inl e
                | Inr (Leaf recs nx) \<Rightarrow>
                    (case find_record recs key of
                       Some d \<Rightarrow> Inr (OK, Some d)
                     | None \<Rightarrow> Inr (NotFound, None))
                | Inr _ \<Rightarrow> Inl BadPage))"

text \<open>\<open>Search(key, std::string& value_out)\<close>\<close>

definition SearchString :: "nat \<Rightarrow> BPlusTree \<Rightarrow> int \<Rightarrow> tfault + Status \<times> string option" where
  "SearchString fuel t key =
     (case Search fuel t key of
        Inl e \<Rightarrow> Inl e
      | Inr (s, buf) \<Rightarrow> Inr (s, map_option trimmed buf))"

subsection \<open>Range query\<close>

text \<open>The loop over one leaf: the records it emits, and whether a key above \<open>upper\<close> was met.\<close>

fun scan_leaf :: "(int \<times> string) list \<Rightarrow> int \<Rightarrow> int \<Rightarrow> (int \<times> string) list \<times> bool" where
  "scan_leaf [] lower upper = ([], False)"
| "scan_leaf ((k, d) # recs) lower upper =
     (if k > upper then ([], True)
      else let (out, done) = scan_leaf recs lower upper
           in (if k \<ge> lower then (k, trimmed d) # out else out, done))"

fun walk_leaves ::
  "nat \<Rightarrow> BPlusTree \<Rightarrow> int \<Rightarrow> int \<Rightarrow> int \<Rightarrow> tfault + (int \<times> string) list" where
  "walk_leaves fuel t leaf_off lower upper =
     (if leaf_off \<noteq> INVALID_PAGE_ID \<and> leaf_off \<ge> PAGE_SIZE
      then (case fuel of
              0 \<Rightarrow> Inl OutOfFuel
            | Suc fuel' \<Rightarrow>
                (case PinPage t leaf_off of
                   Inl e \<Rightarrow> Inl e
                 | Inr (Leaf recs nx) \<Rightarrow>
                     (let (out, done) = scan_leaf recs lower upper
                      in if done then Inr out
                         else (case walk_leaves fuel' t nx lower upper of
                                 Inl e \<Rightarrow> Inl e
                               | Inr later \<Rightarrow> Inr (out @ later)))
                 | Inr _ \<Rightarrow> Inl BadPage))
      else Inr [])"

definition RangeQuery ::
  "nat \<Rightarrow> BPlusTree \<Rightarrow> int \<Rightarrow> int \<Rightarrow> tfault + Status \<times> (int \<times> string) list" where
  "RangeQuery fuel t lower upper =
     (if lower > upper then Inr (InvalidArg, [])
      else if root_offset t = INVALID_PAGE_ID then Inr (OK, [])
      else (case SearchLeaf fuel t lower of
              Inl e \<Rightarrow> Inl e
            | Inr leaf_off \<Rightarrow>
                if leaf_off = INVALID_PAGE_ID then Inr (OK, [])
                else (case walk_leaves fuel t leaf_off lower upper of
                        Inl e \<Rightarrow> Inl e
                      | Inr results \<Rightarrow> Inr (OK, results))))"

subsection \<open>Insert\<close>

text \<open>
  The insert helpers return the tree and, when the node was split, the separator key
  and the offset of the new node (\<open>split_key\<close>, \<open>new_off\<close>); \<open>None\<close> is \<open>return false\<close>.
\<close>

definition InsertIntoLeaf ::
  "BPlusTree \<Rightarrow> int \<Rightarrow> int \<Rightarrow> string \<Rightarrow> tfault + BPlusTree \<times> (int \<times> int) option" where
  "InsertIntoLeaf t leaf_off key dat =
     (case PinPage t leaf_off of
        Inl e \<Rightarrow> Inl e
      | Inr (Leaf recs nx) \<Rightarrow>
          if find_record recs key \<noteq> None
          then Inr (UnpinPage t leaf_off (Leaf (set_data recs key dat) nx), None)
          else if length recs < LEAF_MAX_KEYS
          then Inr (UnpinPage t leaf_off
                      (Leaf (insert_at (shift_pos recs key) (key, dat) recs) nx), None)
          else (let recs' = insert_at (lower_bound recs key) (key, dat) recs;
                    mid = (length recs' + 1) div 2
                in case AllocPage t of
                     Inl e \<Rightarrow> Inl e
                   | Inr (new_leaf_off, t1) \<Rightarrow>
                       (let t2 = UnpinPage t1 new_leaf_off (Leaf (drop mid recs') nx);
                            t3 = UnpinPage t2 leaf_off (Leaf (take mid recs') new_leaf_off)
                        in case PinPage t3 new_leaf_off of
                             Inl e \<Rightarrow> Inl e
                           | Inr (Leaf nrecs nnx) \<Rightarrow> Inr (t3, Some (KeyAt nrecs 0, new_leaf_off))
                           | Inr _ \<Rightarrow> Inl BadPage))
      | Inr _ \<Rightarrow> Inl BadPage)"

definition InsertIntoInternal ::
  "BPlusTree \<Rightarrow> int \<Rightarrow> int \<Rightarrow> int \<Rightarrow> tfault + BPlusTree \<times> (int \<times> int) option" where
  "InsertIntoInternal t node_off key child_off =
     (case PinPage t node_off of
        Inl e \<Rightarrow> Inl e
      | Inr (Internal c0 kcs) \<Rightarrow>
          if length kcs < INTERNAL_MAX_KEYS
          then Inr (UnpinPage t node_off
                      (Internal c0 (insert_at (shift_pos kcs key) (key, child_off) kcs)), None)
          else (let kcs' = insert_at (lower_bound kcs key) (key, child_off) kcs;
                    mid = length kcs' div 2;
                    split_key = KeyAt kcs' mid
                in case AllocPage t of
                     Inl e \<Rightarrow> Inl e
                   | Inr (new_node_off, t1) \<Rightarrow>
                       (let t2 = UnpinPage t1 new_node_off
                                   (Internal (ChildAt c0 kcs' (mid + 1)) (drop (mid + 1) kcs'))
                        in case PinPage t2 node_off of
                             Inl e \<Rightarrow> Inl e
                           | Inr _ \<Rightarrow>
                               Inr (UnpinPage t2 node_off (Internal c0 (take mid kcs')),
                                    Some (split_key, new_node_off))))
      | Inr _ \<Rightarrow> Inl BadPage)"

fun InsertRecursive ::
  "nat \<Rightarrow> BPlusTree \<Rightarrow> int \<Rightarrow> int \<Rightarrow> string \<Rightarrow> tfault + BPlusTree \<times> (int \<times> int) option" where
  "InsertRecursive 0 t node_off key dat = Inl OutOfFuel"
| "InsertRecursive (Suc fuel) t node_off key dat =
     (case PinPage t node_off of
        Inl e \<Rightarrow> Inl e
      | Inr (Leaf recs nx) \<Rightarrow> InsertIntoLeaf t node_off key dat
      | Inr (Internal c0 kcs) \<Rightarrow>
          (let child = ChildAt c0 kcs (child_index kcs key)
           in case InsertRecursive fuel t child key dat of
                Inl e \<Rightarrow> Inl e
              | Inr (t1, None) \<Rightarrow> Inr (t1, None)
              | Inr (t1, Some (child_split, child_new)) \<Rightarrow>
                  InsertIntoInternal t1 node_off child_split child_new)
      | Inr (Freed l) \<Rightarrow> Inl BadPage)"

definition Insert :: "nat \<Rightarrow> BPlusTree \<Rightarrow> int \<Rightarrow> string \<Rightarrow> tfault + Status \<times> BPlusTree" where
  "Insert fuel t key dat =
     (if root_offset t = INVALID_PAGE_ID
      then (case AllocPage t of
              Inl e \<Rightarrow> Inl e
            | Inr (off, t1) \<Rightarrow>
                Inr (OK, WriteMetadata
                           ((UnpinPage t1 off (Leaf [(key, padded dat)] INVALID_PAGE_ID))
                              \<lparr>root_offset := off\<rparr>)))
      else (case InsertRecursive fuel t (root_offset t) key (padded dat) of
              Inl e \<Rightarrow> Inl e
            | Inr (t1, None) \<Rightarrow> Inr (OK, t1)
            | Inr (t1, Some (split_key, new_off)) \<Rightarrow>
                (case AllocPage t1 of
                   Inl e \<Rightarrow> Inl e
                 | Inr (new_root, t2) \<Rightarrow>
                     Inr (OK, WriteMetadata
                                ((UnpinPage t2 new_root
                                    (Internal (root_offset t2) [(split_key, new_off)]))
                                   \<lparr>root_offset := new_root\<rparr>)))))"

subsection \<open>Delete\<close>

text \<open>A pin followed by the construction of a \<open>LeafPage\<close> or an \<open>InternalPage\<close> view.\<close>

definition pin_leaf :: "BPlusTree \<Rightarrow> int \<Rightarrow> tfault + (int \<times> string) list \<times> int" where
  "pin_leaf t pid =
     (case PinPage t pid of
        Inl e \<Rightarrow> Inl e
      | Inr (Leaf recs nx) \<Rightarrow> Inr (recs, nx)
      | Inr _ \<Rightarrow> Inl BadPage)"

definition pin_internal :: "BPlusTree \<Rightarrow> int \<Rightarrow> tfault + int \<times> (int \<times> int) list" where
  "pin_internal t pid =
     (case PinPage t pid of
        Inl e \<Rightarrow> Inl e
      | Inr (Internal c0 kcs) \<Rightarrow> Inr (c0, kcs)
      | Inr _ \<Rightarrow> Inl BadPage)"

text \<open>
  The loop that closes the gap in the parent after a merge,
  \<open>for (j = idx; j < pn - 1; ++j) { key[j] = key[j + 1]; child[j + 1] = child[j + 2]; }\<close>
  followed by \<open>SetNumKeys(pn - 1)\<close>.
\<close>

definition remove_at_slot :: "nat \<Rightarrow> 'a list \<Rightarrow> 'a list" where
  "remove_at_slot pos xs = take (length xs - 1) (take pos xs @ drop (Suc pos) xs)"

definition DeleteFromLeaf :: "BPlusTree \<Rightarrow> int \<Rightarrow> int \<Rightarrow> tfault + BPlusTree \<times> bool" where
  "DeleteFromLeaf t leaf_off key =
     (case pin_leaf t leaf_off of
        Inl e \<Rightarrow> Inl e
      | Inr (recs, nx) \<Rightarrow>
          if find_record recs key = None then Inr (t, False)
          else Inr (UnpinPage t leaf_off (Leaf (remove_record recs key) nx),
                    if leaf_off = root_offset t then length recs - 1 = 0
                    else length recs - 1 < LEAF_MIN_KEYS))"

text \<open>
  \<open>FixLeafChild\<close> in its three stages.  A borrowing stage returns \<open>None\<close> when it does
  not apply; it has then changed nothing.
\<close>

definition leaf_borrow_left :: "BPlusTree \<Rightarrow> int \<Rightarrow> nat \<Rightarrow> tfault + BPlusTree option" where
  "leaf_borrow_left t parent_off child_idx =
     (case pin_internal t parent_off of
        Inl e \<Rightarrow> Inl e
      | Inr (pc0, pkcs) \<Rightarrow>
          if child_idx > 0
          then (let child_off = ChildAt pc0 pkcs child_idx;
                    left_off = ChildAt pc0 pkcs (child_idx - 1)
                in case pin_leaf t left_off of
                     Inl e \<Rightarrow> Inl e
                   | Inr (lrecs, lnx) \<Rightarrow>
                       if length lrecs > LEAF_MIN_KEYS
                       then (let r = last lrecs;
                                 t1 = UnpinPage t left_off (Leaf (butlast lrecs) lnx)
                             in case pin_leaf t1 child_off of
                                  Inl e \<Rightarrow> Inl e
                                | Inr (crecs, cnx) \<Rightarrow>
                                    (let t2 = UnpinPage t1 child_off (Leaf (r # crecs) cnx)
                                     in case pin_internal t2 parent_off of
                                          Inl e \<Rightarrow> Inl e
                                        | Inr (pc0', pkcs') \<Rightarrow>
                                            Inr (Some (UnpinPage t2 parent_off
                                              (Internal pc0' (set_key (child_idx - 1) (fst r) pkcs'))))))
                       else Inr None)
          else Inr None)"

definition leaf_borrow_right :: "BPlusTree \<Rightarrow> int \<Rightarrow> nat \<Rightarrow> tfault + BPlusTree option" where
  "leaf_borrow_right t parent_off child_idx =
     (case pin_internal t parent_off of
        Inl e \<Rightarrow> Inl e
      | Inr (pc0, pkcs) \<Rightarrow>
          if child_idx < length pkcs
          then (let child_off = ChildAt pc0 pkcs child_idx;
                    right_off = ChildAt pc0 pkcs (child_idx + 1)
                in case pin_leaf t right_off of
                     Inl e \<Rightarrow> Inl e
                   | Inr (rrecs, rnx) \<Rightarrow>
                       if length rrecs > LEAF_MIN_KEYS
                       then (let r = hd rrecs;
                                 new_right_first = KeyAt (tl rrecs) 0;
                                 t1 = UnpinPage t right_off (Leaf (tl rrecs) rnx)
                             in case pin_leaf t1 child_off of
                                  Inl e \<Rightarrow> Inl e
                                | Inr (crecs, cnx) \<Rightarrow>
                                    (let t2 = UnpinPage t1 child_off (Leaf (crecs @ [r]) cnx)
                                     in case pin_internal t2 parent_off of
                                          Inl e \<Rightarrow> Inl e
                                        | Inr (pc0', pkcs') \<Rightarrow>
                                            Inr (Some (UnpinPage t2 parent_off
                                              (Internal pc0' (set_key child_idx new_right_first pkcs'))))))
                       else Inr None)
          else Inr None)"

definition leaf_merge :: "BPlusTree \<Rightarrow> int \<Rightarrow> nat \<Rightarrow> tfault + BPlusTree" where
  "leaf_merge t parent_off child_idx =
     (case pin_internal t parent_off of
        Inl e \<Rightarrow> Inl e
      | Inr (pc0, pkcs) \<Rightarrow>
          (let child_off = ChildAt pc0 pkcs child_idx;
               left_off = (if child_idx > 0 then ChildAt pc0 pkcs (child_idx - 1) else child_off);
               right_off = (if child_idx > 0 then child_off else ChildAt pc0 pkcs (child_idx + 1));
               merge_key_idx = (if child_idx > 0 then child_idx - 1 else child_idx)
           in case pin_leaf t left_off of
                Inl e \<Rightarrow> Inl e
              | Inr (lrecs, lnx) \<Rightarrow>
                  (case pin_leaf t right_off of
                     Inl e \<Rightarrow> Inl e
                   | Inr (rrecs, rnx) \<Rightarrow>
                       (let t1 = UnpinPage t left_off (Leaf (lrecs @ rrecs) rnx);
                            t2 = DeallocPage t1 right_off
                        in case pin_internal t2 parent_off of
                             Inl e \<Rightarrow> Inl e
                           | Inr (pc0', pkcs') \<Rightarrow>
                               Inr (UnpinPage t2 parent_off
                                      (Internal pc0' (remove_at_slot merge_key_idx pkcs')))))))"

definition FixLeafChild :: "BPlusTree \<Rightarrow> int \<Rightarrow> nat \<Rightarrow> tfault + BPlusTree" where
  "FixLeafChild t parent_off child_idx =
     (case leaf_borrow_left t parent_off child_idx of
        Inl e \<Rightarrow> Inl e
      | Inr (Some t') \<Rightarrow> Inr t'
      | Inr None \<Rightarrow>
          (case leaf_borrow_right t parent_off child_idx of
             Inl e \<Rightarrow> Inl e
           | Inr (Some t') \<Rightarrow> Inr t'
           | Inr None \<Rightarrow> leaf_merge t parent_off child_idx))"

text \<open>\<open>FixInternalChild\<close>, in the same three stages.\<close>

definition internal_borrow_left :: "BPlusTree \<Rightarrow> int \<Rightarrow> nat \<Rightarrow> tfault + BPlusTree option" where
  "internal_borrow_left t parent_off child_idx =
     (case pin_internal t parent_off of
        Inl e \<Rightarrow> Inl e
      | Inr (pc0, pkcs) \<Rightarrow>
          if child_idx > 0
          then (let child_off = ChildAt pc0 pkcs child_idx;
                    left_off = ChildAt pc0 pkcs (child_idx - 1);
                    parent_key = KeyAt pkcs (child_idx - 1)
                in case pin_internal t left_off of
                     Inl e \<Rightarrow> Inl e
                   | Inr (lc0, lkcs) \<Rightarrow>
                       if length lkcs > INTERNAL_MIN_KEYS
                       then (let borrowed_key = KeyAt lkcs (length lkcs - 1);
                                 borrowed_child = ChildAt lc0 lkcs (length lkcs);
                                 t1 = UnpinPage t left_off (Internal lc0 (butlast lkcs))
                             in case pin_internal t1 child_off of
                                  Inl e \<Rightarrow> Inl e
                                | Inr (cc0, ckcs) \<Rightarrow>
                                    (let t2 = UnpinPage t1 child_off
                                                (Internal borrowed_child ((parent_key, cc0) # ckcs))
                                     in case pin_internal t2 parent_off of
                                          Inl e \<Rightarrow> Inl e
                                        | Inr (pc0', pkcs') \<Rightarrow>
                                            Inr (Some (UnpinPage t2 parent_off
                                              (Internal pc0' (set_key (child_idx - 1) borrowed_key pkcs'))))))
                       else Inr None)
          else Inr None)"

definition internal_borrow_right :: "BPlusTree \<Rightarrow> int \<Rightarrow> nat \<Rightarrow> tfault + BPlusTree option" where
  "internal_borrow_right t parent_off child_idx =
     (case pin_internal t parent_off of
        Inl e \<Rightarrow> Inl e
      | Inr (pc0, pkcs) \<Rightarrow>
          if child_idx < length pkcs
          then (let child_off = ChildAt pc0 pkcs child_idx;
                    right_off = ChildAt pc0 pkcs (child_idx + 1);
                    parent_key = KeyAt pkcs child_idx
                in case pin_internal t right_off of
                     Inl e \<Rightarrow> Inl e
                   | Inr (rc0, rkcs) \<Rightarrow>
                       if length rkcs > INTERNAL_MIN_KEYS
                       then (let borrowed_key = KeyAt rkcs 0;
                                 borrowed_child = ChildAt rc0 rkcs 0;
                                 t1 = UnpinPage t right_off
                                        (Internal (ChildAt rc0 rkcs 1) (tl rkcs))
                             in case pin_internal t1 child_off of
                                  Inl e \<Rightarrow> Inl e
                                | Inr (cc0, ckcs) \<Rightarrow>
                                    (let t2 = UnpinPage t1 child_off
                                                (Internal cc0 (ckcs @ [(parent_key, borrowed_child)]))
                                     in case pin_internal t2 parent_off of
                                          Inl e \<Rightarrow> Inl e
                                        | Inr (pc0', pkcs') \<Rightarrow>
                                            Inr (Some (UnpinPage t2 parent_off
                                              (Internal pc0' (set_key child_idx borrowed_key pkcs'))))))
                       else Inr None)
          else Inr None)"

definition internal_merge :: "BPlusTree \<Rightarrow> int \<Rightarrow> nat \<Rightarrow> tfault + BPlusTree" where
  "internal_merge t parent_off child_idx =
     (case pin_internal t parent_off of
        Inl e \<Rightarrow> Inl e
      | Inr (pc0, pkcs) \<Rightarrow>
          (let child_off = ChildAt pc0 pkcs child_idx;
               left_off = (if child_idx > 0 then ChildAt pc0 pkcs (child_idx - 1) else child_off);
               right_off = (if child_idx > 0 then child_off else ChildAt pc0 pkcs (child_idx + 1));
               merge_key_idx = (if child_idx > 0 then child_idx - 1 else child_idx);
               merge_key = KeyAt pkcs merge_key_idx
           in case pin_internal t left_off of
                Inl e \<Rightarrow> Inl e
              | Inr (lc0, lkcs) \<Rightarrow>
                  (case pin_internal t right_off of
                     Inl e \<Rightarrow> Inl e
                   | Inr (rc0, rkcs) \<Rightarrow>
                       (let t1 = UnpinPage t left_off
                                   (Internal lc0 (lkcs @ [(merge_key, rc0)] @ rkcs));
                            t2 = DeallocPage t1 right_off
                        in case pin_internal t2 parent_off of
                             Inl e \<Rightarrow> Inl e
                           | Inr (pc0', pkcs') \<Rightarrow>
                               Inr (UnpinPage t2 parent_off
                                      (Internal pc0' (remove_at_slot merge_key_idx pkcs')))))))"

definition FixInternalChild :: "BPlusTree \<Rightarrow> int \<Rightarrow> nat \<Rightarrow> tfault + BPlusTree" where
  "FixInternalChild t parent_off child_idx =
     (case internal_borrow_left t parent_off child_idx of
        Inl e \<Rightarrow> Inl e
      | Inr (Some t') \<Rightarrow> Inr t'
      | Inr None \<Rightarrow>
          (case internal_borrow_right t parent_off child_idx of
             Inl e \<Rightarrow> Inl e
           | Inr (Some t') \<Rightarrow> Inr t'
           | Inr None \<Rightarrow> internal_merge t parent_off child_idx))"

definition FixChild :: "BPlusTree \<Rightarrow> int \<Rightarrow> nat \<Rightarrow> tfault + BPlusTree" where
  "FixChild t parent_off child_idx =
     (case pin_internal t parent_off of
        Inl e \<Rightarrow> Inl e
      | Inr (pc0, pkcs) \<Rightarrow>
          (case PinPage t (ChildAt pc0 pkcs child_idx) of
             Inl e \<Rightarrow> Inl e
           | Inr (Leaf recs nx) \<Rightarrow> FixLeafChild t parent_off child_idx
           | Inr _ \<Rightarrow> FixInternalChild t parent_off child_idx))"

fun DeleteRecursive :: "nat \<Rightarrow> BPlusTree \<Rightarrow> int \<Rightarrow> int \<Rightarrow> tfault + BPlusTree \<times> bool" where
  "DeleteRecursive 0 t node_off key = Inl OutOfFuel"
| "DeleteRecursive (Suc fuel) t node_off key =
     (case PinPage t node_off of
        Inl e \<Rightarrow> Inl e
      | Inr (Leaf recs nx) \<Rightarrow> DeleteFromLeaf t node_off key
      | Inr (Internal c0 kcs) \<Rightarrow>
          (let i = child_index kcs key;
               child = ChildAt c0 kcs i
           in case DeleteRecursive fuel t child key of
                Inl e \<Rightarrow> Inl e
              | Inr (t1, child_underful) \<Rightarrow>
                  if child_underful
                  then (case FixChild t1 node_off i of
                          Inl e \<Rightarrow> Inl e
                        | Inr t2 \<Rightarrow>
                            (case pin_internal t2 node_off of
                               Inl e \<Rightarrow> Inl e
                             | Inr (c0', kcs') \<Rightarrow>
                                 Inr (t2, if node_off = root_offset t2 then length kcs' = 0
                                          else length kcs' < INTERNAL_MIN_KEYS)))
                  else Inr (t1, False))
      | Inr (Freed l) \<Rightarrow> Inl BadPage)"

definition Delete :: "nat \<Rightarrow> BPlusTree \<Rightarrow> int \<Rightarrow> tfault + Status \<times> BPlusTree" where
  "Delete fuel t key =
     (if root_offset t = INVALID_PAGE_ID then Inr (NotFound, t)
      else (case Search fuel t key of
              Inl e \<Rightarrow> Inl e
            | Inr (s, buf) \<Rightarrow>
                if s \<noteq> OK then Inr (NotFound, t)
                else (case DeleteRecursive fuel t (root_offset t) key of
                        Inl e \<Rightarrow> Inl e
                      | Inr (t1, underful) \<Rightarrow>
                          if underful
                          then (case PinPage t1 (root_offset t1) of
                                  Inl e \<Rightarrow> Inl e
                                | Inr (Internal c0 kcs) \<Rightarrow>
                                    if length kcs = 0
                                    then Inr (OK, WriteMetadata
                                           (DeallocPage (t1\<lparr>root_offset := c0\<rparr>) (root_offset t1)))
                                    else Inr (OK, t1)
                                | Inr (Leaf recs nx) \<Rightarrow>
                                    if length recs = 0
                                    then Inr (OK, WriteMetadata
                                           (DeallocPage (t1\<lparr>root_offset := INVALID_PAGE_ID\<rparr>)
                                              (root_offset t1)))
                                    else Inr (OK, t1)
                                | Inr (Freed l) \<Rightarrow> Inl BadPage)
                          else Inr (OK, t1))))"

subsection \<open>Sequences of operations\<close>

datatype operation = InsertOp int string | DeleteOp int

fun apply_operation :: "nat \<Rightarrow> BPlusTree \<Rightarrow> operation \<Rightarrow> tfault + Status \<times> BPlusTree" where
  "apply_operation fuel t (InsertOp key dat) = Insert fuel t key dat"
| "apply_operation fuel t (DeleteOp key) = Delete fuel t key"

fun run :: "nat \<Rightarrow> BPlusTree \<Rightarrow> operation list \<Rightarrow> tfault + BPlusTree" where
  "run fuel t [] = Inr t"
| "run fuel t (x # xs) =
     (case apply_operation fuel t x of
        Inl e \<Rightarrow> Inl e
      | Inr (s, t1) \<Rightarrow> run fuel t1 xs)"

section \<open>Well-formed trees\<close>

text \<open>
  The predicates below describe the store of a tree whose leaves all lie \<open>h\<close> levels
  below the root.  \<open>children\<close> are the child pointers of an internal node in slot
  order; \<open>recs_of\<close> are the records below a page, leaf by leaf from left to right;
  \<open>fp\<close> are the pages of a subtree.  \<open>sub pg h m p\<close>: the subtree at \<open>p\<close> is made of
  leaves at depth \<open>h\<close>, its top node holds at least \<open>m\<close> and at most the maximum
  number of keys, every node below holds at least the minimum for its kind, every leaf
  is in strictly ascending key order, and every separator \<open>key[j]\<close> lies above all keys
  under child \<open>j\<close> and not above any key under child \<open>j + 1\<close>.
\<close>

definition minkeys :: "nat \<Rightarrow> nat" where
  "minkeys h = (if h = 0 then LEAF_MIN_KEYS else INTERNAL_MIN_KEYS)"

definition children :: "int \<Rightarrow> (int \<times> int) list \<Rightarrow> int list" where
  "children c0 kcs = c0 # map snd kcs"

fun recs_of :: "(int \<Rightarrow> page) \<Rightarrow> nat \<Rightarrow> int \<Rightarrow> (int \<times> string) list" where
  "recs_of pg 0 p = (case pg p of Leaf recs nx \<Rightarrow> recs | _ \<Rightarrow> [])"
| "recs_of pg (Suc h) p =
     (case pg p of
        Internal c0 kcs \<Rightarrow> concat (map (recs_of pg h) (children c0 kcs))
      | _ \<Rightarrow> [])"

fun fp :: "(int \<Rightarrow> page) \<Rightarrow> nat \<Rightarrow> int \<Rightarrow> int list" where
  "fp pg 0 p = [p]"
| "fp pg (Suc h) p =
     (case pg p of
        Internal c0 kcs \<Rightarrow> p # concat (map (fp pg h) (children c0 kcs))
      | _ \<Rightarrow> [p])"

definition keys_of :: "(int \<Rightarrow> page) \<Rightarrow> nat \<Rightarrow> int \<Rightarrow> int set" where
  "keys_of pg h p = fst ` set (recs_of pg h p)"

fun sub :: "(int \<Rightarrow> page) \<Rightarrow> nat \<Rightarrow> nat \<Rightarrow> int \<Rightarrow> bool" where
  "sub pg 0 m p =
     (case pg p of
        Leaf recs nx \<Rightarrow>
          m \<le> length recs \<and> length recs \<le> LEAF_MAX_KEYS \<and> sorted_wrt (<) (map fst recs)
      | _ \<Rightarrow> False)"
| "sub pg (Suc h) m p =
     (case pg p of
        Internal c0 kcs \<Rightarrow>
          m \<le> length kcs \<and> length kcs \<le> INTERNAL_MAX_KEYS \<and>
          (\<forall>c \<in> set (children c0 kcs). sub pg h (minkeys h) c) \<and>
          (\<forall>j < length kcs.
             (\<forall>k \<in> keys_of pg h (ChildAt c0 kcs j). k < fst (kcs ! j)) \<and>
             (\<forall>k \<in> keys_of pg h (ChildAt c0 kcs (Suc j)). fst (kcs ! j) \<le> k))
      | _ \<Rightarrow> False)"

text \<open>The free list: \<open>chain pg head ps\<close> when the links from \<open>head\<close> run through \<open>ps\<close> and end.\<close>

fun chain :: "(int \<Rightarrow> page) \<Rightarrow> int \<Rightarrow> int list \<Rightarrow> bool" where
  "chain pg head [] = (head = INVALID_PAGE_ID)"
| "chain pg head (p # ps) =
     (head = p \<and> p \<noteq> INVALID_PAGE_ID \<and> (case pg p of Freed l \<Rightarrow> chain pg l ps | _ \<Rightarrow> False))"

definition alloc_ok :: "BPlusTree \<Rightarrow> int list \<Rightarrow> bool" where
  "alloc_ok t fl \<longleftrightarrow>
     chain (pages t) (disk_free t) fl \<and> distinct fl \<and>
     (\<forall>q \<in> set fl. PAGE_SIZE \<le> q \<and> q + PAGE_SIZE \<le> disk_next t) \<and>
     PAGE_SIZE \<le> disk_next t \<and> disk_next t \<le> disk_size t \<and>
     next_page_offset t = disk_next t"

text \<open>
  \<open>tree_ok t h fl\<close>: the tree is empty, or its root satisfies \<open>sub\<close> with at least one
  key; no page belongs to two nodes or to a node and the free list \<open>fl\<close>; every page
  in use lies between the metadata page and the allocation frontier.
\<close>

definition tree_ok :: "BPlusTree \<Rightarrow> nat \<Rightarrow> int list \<Rightarrow> bool" where
  "tree_ok t h fl \<longleftrightarrow>
     alloc_ok t fl \<and>
     (if root_offset t = INVALID_PAGE_ID then h = 0
      else sub (pages t) h 1 (root_offset t) \<and>
           distinct (fp (pages t) h (root_offset t) @ fl) \<and>
           (\<forall>q \<in> set (fp (pages t) h (root_offset t)).
              PAGE_SIZE \<le> q \<and> q + PAGE_SIZE \<le> disk_next t))"

text \<open>The records of the whole tree.\<close>

definition contents :: "BPlusTree \<Rightarrow> nat \<Rightarrow> (int \<times> string) list" where
  "contents t h =
     (if root_offset t = INVALID_PAGE_ID then [] else recs_of (pages t) h (root_offset t))"

text \<open>
  What a step on the subtree with pages \<open>own\<close> may do: pages move between the subtree,
  the free list and the frontier; every other page below the frontier keeps its value.
\<close>

definition moved ::
  "BPlusTree \<Rightarrow> int list \<Rightarrow> int set \<Rightarrow> BPlusTree \<Rightarrow> int list \<Rightarrow> int set \<Rightarrow> bool" where
  "moved t fl own t' fl' own' \<longleftrightarrow>
     alloc_ok t' fl' \<and>
     own' \<union> set fl' \<subseteq> own \<union> set fl \<union> {q. disk_next t \<le> q} \<and>
     own' \<inter> set fl' = {} \<and>
     (\<forall>q \<in> own'. PAGE_SIZE \<le> q \<and> q + PAGE_SIZE \<le> disk_next t') \<and>
     (\<forall>q. q \<notin> own \<and> q \<notin> set fl \<and> q < disk_next t \<longrightarrow> pages t' q = pages t q) \<and>
     disk_next t \<le> disk_next t' \<and> root_offset t' = root_offset t"


text \<open>
  \<open>seps_ok K c0 kcs\<close>: each separator lies above the keys \<open>K\<close> of the child on its left
  and not above a key of the child on its right.  \<open>vnode\<close>: the slots \<open>c0\<close>, \<open>kcs\<close> would
  make a well-formed node one level above \<open>h\<close>, whatever their number.
\<close>

definition seps_ok :: "(int \<Rightarrow> int set) \<Rightarrow> int \<Rightarrow> (int \<times> int) list \<Rightarrow> bool" where
  "seps_ok K c0 kcs \<longleftrightarrow>
     (\<forall>j < length kcs.
        (\<forall>k \<in> K (ChildAt c0 kcs j). k < fst (kcs ! j)) \<and>
        (\<forall>k \<in> K (ChildAt c0 kcs (Suc j)). fst (kcs ! j) \<le> k))"

definition vnode :: "(int \<Rightarrow> page) \<Rightarrow> nat \<Rightarrow> int \<Rightarrow> (int \<times> int) list \<Rightarrow> bool" where
  "vnode pg h c0 kcs \<longleftrightarrow>
     (\<forall>c \<in> set (children c0 kcs). sub pg h (minkeys h) c) \<and> seps_ok (keys_of pg h) c0 kcs"

text \<open>Insertion into a list of records in key order; an existing key has its payload replaced.\<close>

fun upsert :: "int \<Rightarrow> string \<Rightarrow> (int \<times> string) list \<Rightarrow> (int \<times> string) list" where
  "upsert k d [] = [(k, d)]"
| "upsert k d ((k', d') # xs) =
     (if k < k' then (k, d) # (k', d') # xs
      else if k = k' then (k, d) # xs
      else (k', d') # upsert k d xs)"

text \<open>The nodes that stand for a node after an insert below it: the node, and its new sibling.\<close>

definition outs :: "int \<Rightarrow> (int \<times> int) option \<Rightarrow> int list" where
  "outs p r = (case r of None \<Rightarrow> [p] | Some (sk, np) \<Rightarrow> [p, np])"

definition pinnable :: "BPlusTree \<Rightarrow> int set \<Rightarrow> bool" where
  "pinnable t S \<longleftrightarrow> (\<forall>q \<in> S. PAGE_SIZE \<le> q \<and> q + PAGE_SIZE \<le> disk_size t)"

text \<open>
  \<open>owned t fl h p\<close>: the pages of the subtree at \<open>p\<close> are pairwise different, none is on
  the free list \<open>fl\<close>, all lie between the metadata page and the frontier.
\<close>

definition owned :: "BPlusTree \<Rightarrow> int list \<Rightarrow> nat \<Rightarrow> int \<Rightarrow> bool" where
  "owned t fl h p \<longleftrightarrow>
     alloc_ok t fl \<and> distinct (fp (pages t) h p) \<and> set (fp (pages t) h p) \<inter> set fl = {} \<and>
     (\<forall>q \<in> set (fp (pages t) h p). PAGE_SIZE \<le> q \<and> q + PAGE_SIZE \<le> disk_next t)"

text \<open>
  What an insert below \<open>p\<close> leaves behind: the tree \<open>t'\<close> with free list \<open>fl'\<close>; the
  subtree, or the subtree and its new right sibling with the separator between them,
  holding the records of before with the new one put in; every page outside the
  subtree, the free list and the fresh pages as before.
\<close>

definition ins_post ::
  "BPlusTree \<Rightarrow> int list \<Rightarrow> nat \<Rightarrow> nat \<Rightarrow> int \<Rightarrow> int \<Rightarrow> string \<Rightarrow>
   BPlusTree \<Rightarrow> (int \<times> int) option \<Rightarrow> int list \<Rightarrow> bool" where
  "ins_post t fl h m p key dat t' r fl' \<longleftrightarrow>
     alloc_ok t' fl' \<and> set fl' \<subseteq> set fl \<and> disk_next t \<le> disk_next t' \<and>
     root_offset t' = root_offset t \<and>
     (\<forall>q. q \<notin> set (fp (pages t) h p) \<and> q \<notin> set fl \<and> q < disk_next t \<longrightarrow>
          pages t' q = pages t q) \<and>
     distinct (concat (map (fp (pages t') h) (outs p r))) \<and>
     set (concat (map (fp (pages t') h) (outs p r))) \<subseteq>
       set (fp (pages t) h p) \<union> set fl \<union> {q. disk_next t \<le> q} \<and>
     set (concat (map (fp (pages t') h) (outs p r))) \<inter> set fl' = {} \<and>
     (\<forall>q \<in> set (concat (map (fp (pages t') h) (outs p r))).
        PAGE_SIZE \<le> q \<and> q + PAGE_SIZE \<le> disk_next t') \<and>
     concat (map (recs_of (pages t') h) (outs p r)) = upsert key dat (recs_of (pages t) h p) \<and>
     (case r of
        None \<Rightarrow> sub (pages t') h m p
      | Some (sk, np) \<Rightarrow>
          sub (pages t') h (minkeys h) p \<and> sub (pages t') h (minkeys h) np \<and>
          (\<forall>k \<in> keys_of (pages t') h p. k < sk) \<and> (\<forall>k \<in> keys_of (pages t') h np. sk \<le> k))"

section \<open>States used in the examples\<close>

text \<open>The data file after one page has been allocated at the frontier.\<close>

definition one_page_disk :: disk where
  "one_page_disk = (case AllocatePage new_disk of Inr (p, d) \<Rightarrow> d | Inl e \<Rightarrow> new_disk)"




text \<open>A pool of one frame holding page 4096, modified and unpinned, with a log attached.\<close>

definition dirty_pool :: BufferPool where
  "dirty_pool =
     \<lparr>pool_size = 1,
      frames = [\<lparr>page_id = 4096, pin_count = 0, dirty = True,
                 frame_data = replicate 4096 7\<rparr>],
      page_table = [(4096, 0)], lru_list = [0], free_list = [],
      wal = Some new_wal, hits = 0, misses = 0\<rparr>"

text \<open>A pool of one frame whose only frame is pinned.\<close>

definition pinned_pool :: BufferPool where
  "pinned_pool =
     \<lparr>pool_size = 1,
      frames = [\<lparr>page_id = 4096, pin_count = 1, dirty = True,
                 frame_data = replicate 4096 0\<rparr>],
      page_table = [(4096, 0)], lru_list = [], free_list = [],
      wal = None, hits = 0, misses = 0\<rparr>"

text \<open>A tree whose root is a full leaf (keys 10, 20, ..., 350).\<close>

definition full_leaf_records :: "(int \<times> string) list" where
  "full_leaf_records =
     [(10, []), (20, []),
      (30, []), (40, []), (50, []), (60, []), (70, []), (80, []), (90, []), (100, []),
      (110, []), (120, []), (130, []), (140, []), (150, []), (160, []), (170, []), (180, []),
      (190, []), (200, []), (210, []), (220, []), (230, []), (240, []), (250, []), (260, []),
      (270, []), (280, []), (290, []), (300, []), (310, []), (320, []), (330, []), (340, []), (350, [])]"

definition full_leaf_tree :: BPlusTree where
  "full_leaf_tree =
     \<lparr>pages = (\<lambda>p. zero_page)(4096 := Leaf full_leaf_records (- 1)),
      disk_size = 1048576, disk_root = 4096, disk_next = 8192, disk_free = - 1,
      root_offset = 4096, next_page_offset = 8192\<rparr>"

text \<open>
  A tree whose root holds a child offset beyond the end of the file (child 0), and one
  whose root holds a negative child offset.
\<close>

definition stray_child_tree :: BPlusTree where
  "stray_child_tree =
     \<lparr>pages = (\<lambda>p. zero_page)(4096 := Internal 2097152 [(10, 8192)],
                                 8192 := Leaf [(10, padded ''x'')] (- 1)),
      disk_size = 1048576, disk_root = 4096, disk_next = 12288, disk_free = - 1,
      root_offset = 4096, next_page_offset = 12288\<rparr>"

definition negative_child_tree :: BPlusTree where
  "negative_child_tree =
     \<lparr>pages = (\<lambda>p. zero_page)(4096 := Internal (- 4096) [(10, 8192)],
                                 8192 := Leaf [(10, padded ''x'')] (- 1)),
      disk_size = 1048576, disk_root = 4096, disk_next = 12288, disk_free = - 1,
      root_offset = 4096, next_page_offset = 12288\<rparr>"

section \<open>Properties of the disk manager\<close>

subsection \<open>Reading back what was written\<close>

lemma word_of_bytes_of_word:
  "(word_of_bytes (bytes_of_word n w) :: 'a::len word) = take_bit (8 * n) (w :: 'a word)"
proof (induction n arbitrary: w)
  case 0
  then show ?case by simp
next
  case (Suc n)
  show ?case
    apply (simp add: Suc)
    apply (rule bit_word_eqI)
    apply (simp add: bit_simps less_diff_conv2 cong: conj_cong)
    subgoal for k by (cases "bit w k"; simp; linarith)
    done
qed

lemma word64_bytes_roundtrip: "word_of_bytes (bytes_of_word 8 (w :: 64 word)) = w"
  by (simp add: word_of_bytes_of_word take_bit_word_eq_self)


lemma length_bytes_of_word [simp]: "length (bytes_of_word n w) = n"
  by (induction n arbitrary: w) auto

lemma length_mem_read [simp]: "length (mem_read m off n) = n"
  by (simp add: mem_read_def)

lemma mem_read_write_same: "mem_read (mem_write m off bs) off (length bs) = bs"
  by (rule nth_equalityI) (auto simp add: mem_read_def mem_write_def)

lemma mem_read_write_other:
  "off' + int n \<le> off \<or> off + int (length bs) \<le> off' \<Longrightarrow>
   mem_read (mem_write m off bs) off' n = mem_read m off' n"
  by (auto simp add: mem_read_def mem_write_def)

lemma read64_write64_read: "read64 (write64 m off (read64 m' off')) off = read64 m' off'"
  using mem_read_write_same [of m off "bytes_of_word 8 (word_of_int (read64 m' off') :: 64 word)"]
  by (simp add: read64_def write64_def word64_bytes_roundtrip)

lemma read64_write64_same:
  "- (2 ^ 63) \<le> v \<Longrightarrow> v < 2 ^ 63 \<Longrightarrow> read64 (write64 m off v) off = v"
  using mem_read_write_same [of m off "bytes_of_word 8 (word_of_int v :: 64 word)"]
  by (simp add: read64_def write64_def word64_bytes_roundtrip sint_sbintrunc' signed_take_bit_int_eq_self)

lemma read64_write64_other:
  "off' + 8 \<le> off \<or> off + 8 \<le> off' \<Longrightarrow> read64 (write64 m off v) off' = read64 m off'"
  by (simp add: read64_def write64_def mem_read_write_other)

lemma read64_memset0_other:
  "off' + 8 \<le> off \<or> off + len \<le> off' \<Longrightarrow> read64 (memset0 m off len) off' = read64 m off'"
proof -
  assume "off' + 8 \<le> off \<or> off + len \<le> off'"
  then have "mem_read (memset0 m off len) off' 8 = mem_read m off' 8"
    by (auto simp add: mem_read_def memset0_def mem_write_def)
  then show ?thesis by (simp add: read64_def)
qed

lemma memset0_zero: "off \<le> a \<Longrightarrow> a < off + len \<Longrightarrow> memset0 m off len a = 0"
  by (simp add: memset0_def mem_write_def)

subsection \<open>Freeing a page and allocating again\<close>

lemma FreePage_in:
  assumes "PAGE_SIZE \<le> p" "p + 8 \<le> file_size d"
  shows "FreePage d p =
         Inr (SetFreeListHead (d\<lparr>mapped := write64 (mapped d) p (FreeListHead d)\<rparr>) p)"
  using assms
  by (simp add: FreePage_def in_mapping_def FREE_PAGE_NEXT_OFFSET_def PAGE_SIZE_def Let_def)

lemma FreePage_meta:
  assumes "PAGE_SIZE \<le> p" "p < 2 ^ 63" "p + 8 \<le> file_size d"
  shows "\<exists>d1. FreePage d p = Inr d1 \<and> FreeListHead d1 = p \<and>
           read64 (mapped d1) p = FreeListHead d \<and> NextPageOffset d1 = NextPageOffset d \<and>
           file_size d1 = file_size d"
  using assms
  by (simp add: FreePage_in SetFreeListHead_def FreeListHead_def NextPageOffset_def
      PAGE_SIZE_def META_FREE_LIST_HEAD_def META_NEXT_PAGE_def
      read64_write64_other read64_write64_read read64_write64_same)

lemma AllocatePage_reclaim:
  assumes "FreeListHead d \<noteq> INVALID_PAGE_ID" "PAGE_SIZE \<le> FreeListHead d"
    "FreeListHead d + PAGE_SIZE \<le> file_size d"
  shows "AllocatePage d =
    Inr (FreeListHead d,
     (SetFreeListHead d (read64 (mapped d) (FreeListHead d)))
       \<lparr>mapped := memset0 (mapped (SetFreeListHead d
            (read64 (mapped d) (FreeListHead d)))) (FreeListHead d) PAGE_SIZE\<rparr>)"
  using assms
  by (simp add: AllocatePage_def ReclaimPage_def Let_def in_mapping_def SetFreeListHead_def
      FREE_PAGE_NEXT_OFFSET_def PAGE_SIZE_def)

lemma AllocatePage_reclaim_head:
  assumes "FreeListHead d \<noteq> INVALID_PAGE_ID" "PAGE_SIZE \<le> FreeListHead d"
    "FreeListHead d + PAGE_SIZE \<le> file_size d"
  shows "\<exists>d1. AllocatePage d = Inr (FreeListHead d, d1) \<and>
           FreeListHead d1 = read64 (mapped d) (FreeListHead d) \<and>
           NextPageOffset d1 = NextPageOffset d \<and> file_size d1 = file_size d \<and>
           (\<forall>i. 0 \<le> i \<and> i < PAGE_SIZE \<longrightarrow> mapped d1 (FreeListHead d + i) = 0)"
  using assms(2)
  by (simp add: AllocatePage_reclaim [OF assms] SetFreeListHead_def
      FreeListHead_def [of "_\<lparr>mapped := _\<rparr>"] NextPageOffset_def memset0_zero
      META_FREE_LIST_HEAD_def META_NEXT_PAGE_def PAGE_SIZE_def
      read64_write64_other read64_memset0_other read64_write64_read)

lemma AllocatePage_reclaim_unmapped:
  assumes "FreeListHead d \<noteq> INVALID_PAGE_ID"
    "FreeListHead d < 0 \<or> file_size d < FreeListHead d + PAGE_SIZE"
  shows "AllocatePage d = Inl Unmapped"
  using assms
  by (auto simp add: AllocatePage_def ReclaimPage_def Let_def in_mapping_def
      SetFreeListHead_def FREE_PAGE_NEXT_OFFSET_def PAGE_SIZE_def)

text \<open>
  Claim C8 (amended).  For every page offset \<open>p \<ge> 4096\<close> of a page that lies inside the
  mapped file, \<open>FreePage p\<close> followed by \<open>AllocatePage\<close> returns exactly \<open>p\<close>, with all
  4096 bytes of the page zero, and the free-list head (as well as the next-page offset and
  the file length) is what it was before \<open>FreePage\<close>; \<open>FreePage\<close> with an offset below
  4096 changes nothing; \<open>FreePage\<close> with an offset whose link lies outside the mapped
  file writes outside the mapping.
\<close>

theorem free_then_allocate_returns_page:
  "(PAGE_SIZE \<le> p \<and> p < 2 ^ 63 \<and> p + PAGE_SIZE \<le> file_size d \<longrightarrow>
      (\<exists>d1 d2. FreePage d p = Inr d1 \<and> AllocatePage d1 = Inr (p, d2) \<and>
         (\<forall>i. 0 \<le> i \<and> i < PAGE_SIZE \<longrightarrow> mapped d2 (p + i) = 0) \<and>
         FreeListHead d2 = FreeListHead d \<and>
         NextPageOffset d2 = NextPageOffset d \<and>
         file_size d2 = file_size d))
   \<and> (q < PAGE_SIZE \<longrightarrow> FreePage d q = Inr d)
   \<and> (PAGE_SIZE \<le> r \<and> file_size d < r + 8 \<longrightarrow> FreePage d r = Inl Unmapped)"
proof (intro conjI impI)
  assume q: "q < PAGE_SIZE"
  then show "FreePage d q = Inr d" by (simp add: FreePage_def)
next
  assume "PAGE_SIZE \<le> r \<and> file_size d < r + 8"
  then show "FreePage d r = Inl Unmapped"
    by (simp add: FreePage_def in_mapping_def FREE_PAGE_NEXT_OFFSET_def)
next
  assume p: "PAGE_SIZE \<le> p \<and> p < 2 ^ 63 \<and> p + PAGE_SIZE \<le> file_size d"
  then have p8: "p + 8 \<le> file_size d" by (simp add: PAGE_SIZE_def)
  from FreePage_meta [of p d] p p8 obtain d1 where d1: "FreePage d p = Inr d1"
    "FreeListHead d1 = p" "read64 (mapped d1) p = FreeListHead d"
    "NextPageOffset d1 = NextPageOffset d" "file_size d1 = file_size d"
    by blast
  have "FreeListHead d1 \<noteq> INVALID_PAGE_ID" "PAGE_SIZE \<le> FreeListHead d1"
    "FreeListHead d1 + PAGE_SIZE \<le> file_size d1"
    using p d1 by (simp_all add: INVALID_PAGE_ID_def PAGE_SIZE_def)
  from AllocatePage_reclaim_head [OF this] obtain d2 where
    "AllocatePage d1 = Inr (FreeListHead d1, d2)"
    "FreeListHead d2 = read64 (mapped d1) (FreeListHead d1)"
    "NextPageOffset d2 = NextPageOffset d1" "file_size d2 = file_size d1"
    "\<forall>i. 0 \<le> i \<and> i < PAGE_SIZE \<longrightarrow> mapped d2 (FreeListHead d1 + i) = 0"
    by blast
  with d1 show "\<exists>d1 d2. FreePage d p = Inr d1 \<and> AllocatePage d1 = Inr (p, d2) \<and>
         (\<forall>i. 0 \<le> i \<and> i < PAGE_SIZE \<longrightarrow> mapped d2 (p + i) = 0) \<and>
         FreeListHead d2 = FreeListHead d \<and>
         NextPageOffset d2 = NextPageOffset d \<and>
         file_size d2 = file_size d"
    by simp
qed

subsection \<open>Allocation at the frontier and from the free list\<close>

lemma read64_EnsureCapacity:
  "off + 8 \<le> file_size d \<Longrightarrow> read64 (mapped (EnsureCapacity d r)) off = read64 (mapped d) off"
proof -
  assume a: "off + 8 \<le> file_size d"
  then have "mem_read (mapped (EnsureCapacity d r)) off 8 = mem_read (mapped d) off 8"
    by (auto simp add: EnsureCapacity_def Let_def mem_read_def)
  then show ?thesis by (simp add: read64_def)
qed

lemma read64_range: "- (2 ^ 63) \<le> read64 m off \<and> read64 m off < 2 ^ 63"
  using sint_ge [of "word_of_bytes (mem_read m off 8) :: 64 word"]
    sint_lt [of "word_of_bytes (mem_read m off 8) :: 64 word"]
  by (simp add: read64_def)

lemma file_size_EnsureCapacity: "r \<le> file_size (EnsureCapacity d r)"
proof (cases "r \<le> file_size d")
  case True
  then show ?thesis by (simp add: EnsureCapacity_def)
next
  case False
  define m where "m = max (((r + PAGE_SIZE - 1) div PAGE_SIZE) * PAGE_SIZE)
      (max (file_size d * 2) (2 ^ 20))"
  have up: "x \<le> ((x + PAGE_SIZE - 1) div PAGE_SIZE) * PAGE_SIZE" for x :: int
  proof -
    have "(x + 4095) mod 4096 < 4096" by simp
    moreover have "((x + 4095) div 4096) * 4096 = x + 4095 - (x + 4095) mod 4096"
      by (simp add: minus_mod_eq_div_mult)
    ultimately show ?thesis by (simp add: PAGE_SIZE_def)
  qed
  have "r \<le> m" using up [of r] by (simp add: m_def)
  also have "m \<le> ((m + PAGE_SIZE - 1) div PAGE_SIZE) * PAGE_SIZE" by (rule up)
  finally show ?thesis using False by (simp add: EnsureCapacity_def Let_def m_def)
qed

lemma file_size_EnsureCapacity_mono: "file_size d \<le> file_size (EnsureCapacity d r)"
  using file_size_EnsureCapacity [of r d] by (cases "r \<le> file_size d") (simp_all add: EnsureCapacity_def)

lemma AllocatePage_frontier:
  assumes "FreeListHead d = INVALID_PAGE_ID" "0 \<le> NextPageOffset d"
    "NextPageOffset d + PAGE_SIZE < 2 ^ 63"
  shows "AllocatePage d =
    Inr (NextPageOffset d,
     SetNextPageOffset
       ((EnsureCapacity d (NextPageOffset d + PAGE_SIZE))
          \<lparr>mapped := memset0 (mapped (EnsureCapacity d (NextPageOffset d + PAGE_SIZE)))
                       (NextPageOffset d) PAGE_SIZE\<rparr>)
       (NextPageOffset d + PAGE_SIZE))"
  using assms file_size_EnsureCapacity [of "NextPageOffset d + PAGE_SIZE" d]
  by (simp add: AllocatePage_def ReclaimPage_def Let_def in_mapping_def)

lemma AllocatePage_frontier_meta:
  assumes "FreeListHead d = INVALID_PAGE_ID" "PAGE_SIZE \<le> NextPageOffset d"
    "NextPageOffset d + PAGE_SIZE < 2 ^ 63" "PAGE_SIZE \<le> file_size d"
  shows "\<exists>d1. AllocatePage d = Inr (NextPageOffset d, d1) \<and>
           NextPageOffset d1 = NextPageOffset d + PAGE_SIZE \<and>
           FreeListHead d1 = INVALID_PAGE_ID \<and>
           file_size d1 = file_size (EnsureCapacity d (NextPageOffset d + PAGE_SIZE))"
proof -
  have n0: "0 \<le> NextPageOffset d" using assms(2) by (simp add: PAGE_SIZE_def)
  note eq = AllocatePage_frontier [OF assms(1) n0 assms(3)]
  have "- (2 ^ 63) \<le> NextPageOffset d + PAGE_SIZE"
    using n0 by (simp add: PAGE_SIZE_def)
  then have a: "NextPageOffset (SetNextPageOffset
       ((EnsureCapacity d (NextPageOffset d + PAGE_SIZE))
          \<lparr>mapped := memset0 (mapped (EnsureCapacity d (NextPageOffset d + PAGE_SIZE)))
                       (NextPageOffset d) PAGE_SIZE\<rparr>)
       (NextPageOffset d + PAGE_SIZE)) = NextPageOffset d + PAGE_SIZE"
    using assms(3)
    by (simp add: SetNextPageOffset_def NextPageOffset_def [of "_\<lparr>mapped := _\<rparr>"]
        read64_write64_same)
  have b: "FreeListHead (SetNextPageOffset
       ((EnsureCapacity d (NextPageOffset d + PAGE_SIZE))
          \<lparr>mapped := memset0 (mapped (EnsureCapacity d (NextPageOffset d + PAGE_SIZE)))
                       (NextPageOffset d) PAGE_SIZE\<rparr>)
       (NextPageOffset d + PAGE_SIZE)) = INVALID_PAGE_ID"
    using assms
    by (simp add: SetNextPageOffset_def FreeListHead_def
        META_FREE_LIST_HEAD_def META_NEXT_PAGE_def PAGE_SIZE_def
        read64_write64_other read64_memset0_other read64_EnsureCapacity)
  show ?thesis
    unfolding eq using a b by (simp add: SetNextPageOffset_def)
qed

lemma new_disk_meta:
  "RootOffset new_disk = - 1" "NextPageOffset new_disk = 4096"
  "FreeListHead new_disk = - 1" "file_size new_disk = 4096"
  by (simp_all add: new_disk_def RootOffset_def NextPageOffset_def FreeListHead_def
      SetRootOffset_def SetNextPageOffset_def SetFreeListHead_def
      META_ROOT_OFFSET_def META_NEXT_PAGE_def META_FREE_LIST_HEAD_def
      PAGE_SIZE_def INVALID_PAGE_ID_def read64_write64_other read64_write64_same)

lemma AllocatePage_new_disk: "AllocatePage new_disk = Inr (4096, one_page_disk)"
proof -
  from AllocatePage_frontier_meta [of new_disk] obtain d1 where
    "AllocatePage new_disk = Inr (NextPageOffset new_disk, d1)"
    by (auto simp add: new_disk_meta INVALID_PAGE_ID_def PAGE_SIZE_def)
  then show ?thesis by (simp add: one_page_disk_def new_disk_meta)
qed

lemma one_page_disk_meta:
  "NextPageOffset one_page_disk = 8192" "FreeListHead one_page_disk = - 1"
  "file_size one_page_disk = 1048576"
proof -
  from AllocatePage_frontier_meta [of new_disk] obtain d1 where
    d1: "AllocatePage new_disk = Inr (NextPageOffset new_disk, d1)"
    "NextPageOffset d1 = NextPageOffset new_disk + PAGE_SIZE"
    "FreeListHead d1 = INVALID_PAGE_ID"
    "file_size d1 = file_size (EnsureCapacity new_disk (NextPageOffset new_disk + PAGE_SIZE))"
    by (auto simp add: new_disk_meta INVALID_PAGE_ID_def PAGE_SIZE_def)
  have e: "one_page_disk = d1" using d1(1) by (simp add: one_page_disk_def)
  show "NextPageOffset one_page_disk = 8192"
    using d1(2) by (simp add: e new_disk_meta PAGE_SIZE_def)
  show "FreeListHead one_page_disk = - 1"
    using d1(3) by (simp add: e INVALID_PAGE_ID_def)
  show "file_size one_page_disk = 1048576"
    using d1(4) by (simp add: e new_disk_meta EnsureCapacity_def PAGE_SIZE_def Let_def)
qed

text \<open>
  The example of C8: page 4096 of \<open>one_page_disk\<close> (a file of 1048576 bytes), the offset
  0, and the offset 4096 in the file of 4096 bytes that the constructor creates.
\<close>

theorem free_then_allocate_returns_page_witness:
  "(PAGE_SIZE \<le> 4096 \<and> (4096 :: int) < 2 ^ 63 \<and> 4096 + PAGE_SIZE \<le> file_size one_page_disk \<and>
    0 < PAGE_SIZE \<and> file_size new_disk < 4096 + 8) \<and>
   (\<exists>d1 d2. FreePage one_page_disk 4096 = Inr d1 \<and> AllocatePage d1 = Inr (4096, d2) \<and>
      mapped d2 (4096 + 5) = 0 \<and> FreeListHead d2 = FreeListHead one_page_disk \<and>
      NextPageOffset d2 = 8192 \<and> file_size d2 = 1048576) \<and>
   FreePage one_page_disk 0 = Inr one_page_disk \<and>
   FreePage new_disk 4096 = Inl Unmapped"
proof -
  note t = free_then_allocate_returns_page [of 4096 one_page_disk 0 4096]
  note u = free_then_allocate_returns_page [of 4096 new_disk 0 4096]
  have a: "PAGE_SIZE \<le> 4096 \<and> (4096 :: int) < 2 ^ 63 \<and> 4096 + PAGE_SIZE \<le> file_size one_page_disk"
    by (simp add: PAGE_SIZE_def one_page_disk_meta)
  have b: "(0 :: int) < PAGE_SIZE" by (simp add: PAGE_SIZE_def)
  have c: "PAGE_SIZE \<le> 4096 \<and> file_size new_disk < 4096 + 8"
    by (simp add: PAGE_SIZE_def new_disk_meta)
  from t a obtain d1 d2 where d: "FreePage one_page_disk 4096 = Inr d1"
    "AllocatePage d1 = Inr (4096, d2)"
    "\<forall>i. 0 \<le> i \<and> i < PAGE_SIZE \<longrightarrow> mapped d2 (4096 + i) = 0"
    "FreeListHead d2 = FreeListHead one_page_disk"
    "NextPageOffset d2 = NextPageOffset one_page_disk" "file_size d2 = file_size one_page_disk"
    by blast
  from d(3) [rule_format, of 5] have z: "mapped d2 (4096 + 5) = 0" by (simp add: PAGE_SIZE_def)
  from t b have e: "FreePage one_page_disk 0 = Inr one_page_disk" by blast
  from u c have f: "FreePage new_disk 4096 = Inl Unmapped" by blast
  from d z have "\<exists>d1 d2. FreePage one_page_disk 4096 = Inr d1 \<and> AllocatePage d1 = Inr (4096, d2) \<and>
      mapped d2 (4096 + 5) = 0 \<and> FreeListHead d2 = FreeListHead one_page_disk \<and>
      NextPageOffset d2 = 8192 \<and> file_size d2 = 1048576"
    by (simp add: one_page_disk_meta)
  with a b c e f show ?thesis by blast
qed

text \<open>
  The claim as it is worded (every offset \<open>p \<ge> 4096\<close>) fails for a page outside the file:
  in the file of 4096 bytes that the constructor creates, \<open>FreePage 4096\<close> writes the
  link past the end of the mapping.
\<close>

theorem free_page_outside_file_unmapped:
  "PAGE_SIZE \<le> 4096 \<and> file_size new_disk = 4096 \<and> FreePage new_disk 4096 = Inl Unmapped"
  by (simp add: FreePage_def in_mapping_def new_disk_meta PAGE_SIZE_def
      FREE_PAGE_NEXT_OFFSET_def)

section \<open>Properties of the write-ahead log\<close>

lemma parse_records_short: "length bs < 32 \<Longrightarrow> parse_records bs = []"
  by (subst parse_records.simps) simp

lemma length_file_header_bytes [simp]: "length (file_header_bytes cp) = 16"
  by (simp add: file_header_bytes_def)

lemma ReadAllRecords_Truncate [simp]: "ReadAllRecords (Truncate w) = []"
  by (simp add: ReadAllRecords_def Truncate_def parse_records_short)

subsection \<open>A second recovery\<close>




subsection \<open>When recovery returns\<close>






subsection \<open>A log of one page image\<close>


lemma length_header_bytes [simp]: "length (header_bytes h) = 32"
  by (simp add: header_bytes_def)








subsection \<open>Recoveries that do not return a count\<close>








section \<open>Properties of the buffer pool\<close>

text \<open>
  Claim C10.  When \<open>NewPage\<close> finds no free frame and no unpinned frame, it returns
  the null view after \<open>AllocatePage\<close> has run: the pool is unchanged (the page is not
  installed), the data file is the one \<open>AllocatePage\<close> left, and \<open>FreePage\<close> is not
  called.  In that data file either the next-page offset has advanced past the page
  (the free list was empty and stays empty) or the page has been popped off the free
  list, whose head is now the link the page held.  (Where \<open>AllocatePage\<close> itself leaves
  the mapping, with a free-list head outside the file, \<open>NewPage\<close> does so with it.)
\<close>

theorem new_page_without_frame_leaks_page:
  "(free_list bp = [] \<and> lru_list bp = [] \<longrightarrow>
      NewPage bp d = (case AllocatePage d of
                        Inl e \<Rightarrow> Inl e
                      | Inr (pid, d1) \<Rightarrow> Inr (None, pid, bp, d1))) \<and>
   (FreeListHead d = INVALID_PAGE_ID \<and> PAGE_SIZE \<le> NextPageOffset d \<and>
    NextPageOffset d + PAGE_SIZE < 2 ^ 63 \<and> PAGE_SIZE \<le> file_size d \<longrightarrow>
      (\<exists>d1. AllocatePage d = Inr (NextPageOffset d, d1) \<and>
         NextPageOffset d1 = NextPageOffset d + PAGE_SIZE \<and>
         FreeListHead d1 = INVALID_PAGE_ID)) \<and>
   (FreeListHead d \<noteq> INVALID_PAGE_ID \<and> PAGE_SIZE \<le> FreeListHead d \<and>
    FreeListHead d + PAGE_SIZE \<le> file_size d \<longrightarrow>
      (\<exists>d1. AllocatePage d = Inr (FreeListHead d, d1) \<and>
         FreeListHead d1 = read64 (mapped d) (FreeListHead d) \<and>
         NextPageOffset d1 = NextPageOffset d)) \<and>
   (FreeListHead d \<noteq> INVALID_PAGE_ID \<and>
    (FreeListHead d < 0 \<or> file_size d < FreeListHead d + PAGE_SIZE) \<longrightarrow>
      AllocatePage d = Inl Unmapped)"
proof (intro conjI impI)
  assume "free_list bp = [] \<and> lru_list bp = []"
  then show "NewPage bp d = (case AllocatePage d of
                        Inl e \<Rightarrow> Inl e
                      | Inr (pid, d1) \<Rightarrow> Inr (None, pid, bp, d1))"
    by (simp add: NewPage_def FindVictim_def split: sum.splits prod.splits)
next
  assume a: "FreeListHead d = INVALID_PAGE_ID \<and> PAGE_SIZE \<le> NextPageOffset d \<and>
    NextPageOffset d + PAGE_SIZE < 2 ^ 63 \<and> PAGE_SIZE \<le> file_size d"
  with AllocatePage_frontier_meta [of d]
  show "\<exists>d1. AllocatePage d = Inr (NextPageOffset d, d1) \<and>
         NextPageOffset d1 = NextPageOffset d + PAGE_SIZE \<and>
         FreeListHead d1 = INVALID_PAGE_ID"
    by blast
next
  assume a: "FreeListHead d \<noteq> INVALID_PAGE_ID \<and> PAGE_SIZE \<le> FreeListHead d \<and>
    FreeListHead d + PAGE_SIZE \<le> file_size d"
  with AllocatePage_reclaim_head [of d]
  show "\<exists>d1. AllocatePage d = Inr (FreeListHead d, d1) \<and>
         FreeListHead d1 = read64 (mapped d) (FreeListHead d) \<and>
         NextPageOffset d1 = NextPageOffset d"
    by blast
next
  assume a: "FreeListHead d \<noteq> INVALID_PAGE_ID \<and>
    (FreeListHead d < 0 \<or> file_size d < FreeListHead d + PAGE_SIZE)"
  then show "AllocatePage d = Inl Unmapped"
    by (simp add: AllocatePage_reclaim_unmapped)
qed

lemma FreePage_one_page_disk:
  "\<exists>d1. FreePage one_page_disk 4096 = Inr d1 \<and> FreeListHead d1 = 4096 \<and>
     read64 (mapped d1) 4096 = - 1 \<and> NextPageOffset d1 = 8192 \<and> file_size d1 = 1048576"
  using FreePage_meta [of 4096 one_page_disk]
  by (simp add: PAGE_SIZE_def one_page_disk_meta)

text \<open>
  The example of C10: a pool of one pinned frame, over a data file with an empty free
  list and over the same file after page 4096 was freed.
\<close>

theorem new_page_without_frame_leaks_page_witness:
  "(\<exists>d1. NewPage pinned_pool one_page_disk = Inr (None, 8192, pinned_pool, d1) \<and>
      AllocatePage one_page_disk = Inr (8192, d1) \<and>
      NextPageOffset d1 = 12288 \<and> FreeListHead d1 = - 1) \<and>
   (\<exists>d0 d1. FreePage one_page_disk 4096 = Inr d0 \<and>
      NewPage pinned_pool d0 = Inr (None, 4096, pinned_pool, d1) \<and>
      AllocatePage d0 = Inr (4096, d1) \<and>
      FreeListHead d1 = - 1 \<and> NextPageOffset d1 = 8192)"
proof -
  have p: "free_list pinned_pool = [] \<and> lru_list pinned_pool = []"
    by (simp add: pinned_pool_def)
  have f: "FreeListHead one_page_disk = INVALID_PAGE_ID \<and>
      PAGE_SIZE \<le> NextPageOffset one_page_disk \<and>
      NextPageOffset one_page_disk + PAGE_SIZE < 2 ^ 63 \<and> PAGE_SIZE \<le> file_size one_page_disk"
    by (simp add: one_page_disk_meta INVALID_PAGE_ID_def PAGE_SIZE_def)
  from FreePage_one_page_disk obtain d0 where d0: "FreePage one_page_disk 4096 = Inr d0"
    "FreeListHead d0 = 4096" "read64 (mapped d0) 4096 = - 1" "NextPageOffset d0 = 8192"
    "file_size d0 = 1048576"
    by blast
  have r: "FreeListHead d0 \<noteq> INVALID_PAGE_ID \<and> PAGE_SIZE \<le> FreeListHead d0 \<and>
      FreeListHead d0 + PAGE_SIZE \<le> file_size d0"
    by (simp add: d0 INVALID_PAGE_ID_def PAGE_SIZE_def)
  note t1 = new_page_without_frame_leaks_page [of pinned_pool one_page_disk]
  note t2 = new_page_without_frame_leaks_page [of pinned_pool d0]
  from t1 f obtain d1 where d1: "AllocatePage one_page_disk = Inr (NextPageOffset one_page_disk, d1)"
    "NextPageOffset d1 = NextPageOffset one_page_disk + PAGE_SIZE"
    "FreeListHead d1 = INVALID_PAGE_ID"
    by blast
  from t1 p have n1: "NewPage pinned_pool one_page_disk =
      (case AllocatePage one_page_disk of
         Inl e \<Rightarrow> Inl e | Inr (pid, d1) \<Rightarrow> Inr (None, pid, pinned_pool, d1))"
    by blast
  from t2 r obtain d2 where d2: "AllocatePage d0 = Inr (FreeListHead d0, d2)"
    "FreeListHead d2 = read64 (mapped d0) (FreeListHead d0)"
    "NextPageOffset d2 = NextPageOffset d0"
    by blast
  from t2 p have n2: "NewPage pinned_pool d0 =
      (case AllocatePage d0 of
         Inl e \<Rightarrow> Inl e | Inr (pid, d1) \<Rightarrow> Inr (None, pid, pinned_pool, d1))"
    by blast
  have "\<exists>d1. NewPage pinned_pool one_page_disk = Inr (None, 8192, pinned_pool, d1) \<and>
      AllocatePage one_page_disk = Inr (8192, d1) \<and>
      NextPageOffset d1 = 12288 \<and> FreeListHead d1 = - 1"
    using d1 n1 by (simp add: one_page_disk_meta PAGE_SIZE_def INVALID_PAGE_ID_def)
  moreover have "\<exists>d0 d1. FreePage one_page_disk 4096 = Inr d0 \<and>
      NewPage pinned_pool d0 = Inr (None, 4096, pinned_pool, d1) \<and>
      AllocatePage d0 = Inr (4096, d1) \<and>
      FreeListHead d1 = - 1 \<and> NextPageOffset d1 = 8192"
    using d0 d2 n2 by simp
  ultimately show ?thesis by blast
qed

lemma ReadAllRecords_new_wal: "ReadAllRecords new_wal = []"
  by (simp add: ReadAllRecords_def new_wal_def parse_records_short)

lemma flush_frame_dirty_pool:
  "flush_frame dirty_pool one_page_disk 4096 0 =
     Inr (dirty_pool\<lparr>frames := [\<lparr>page_id = 4096, pin_count = 0, dirty = False,
                                  frame_data = replicate 4096 7\<rparr>]\<rparr>,
          one_page_disk\<lparr>mapped := mem_write (mapped one_page_disk) 4096 (replicate 4096 7)\<rparr>)"
  by (simp add: flush_frame_def dirty_pool_def PageData_def one_page_disk_meta PAGE_SIZE_def)

lemma dirty_pool_table:
  "page_table dirty_pool = [(4096, 0)]" "map_of (page_table dirty_pool) 4096 = Some 0"
  by (simp_all add: dirty_pool_def)

text \<open>
  Claim C2 (the code departs from it).  None of the three paths that copy a dirty frame
  back to the mapped page appends to the attached log: flushing or evicting the dirty
  frame of \<open>dirty_pool\<close> overwrites page 4096 of the data file and leaves the log without
  a single record, so that recovery from that log applies nothing.
\<close>

theorem flush_paths_append_no_log_record:
  "FlushPage dirty_pool one_page_disk 4096 =
     Inr (True,
          dirty_pool\<lparr>frames := [\<lparr>page_id = 4096, pin_count = 0, dirty = False,
                                  frame_data = replicate 4096 7\<rparr>]\<rparr>,
          one_page_disk\<lparr>mapped := mem_write (mapped one_page_disk) 4096 (replicate 4096 7)\<rparr>) \<and>
   FlushAllPages dirty_pool one_page_disk =
     Inr (dirty_pool\<lparr>frames := [\<lparr>page_id = 4096, pin_count = 0, dirty = False,
                                  frame_data = replicate 4096 7\<rparr>]\<rparr>,
          one_page_disk\<lparr>mapped := mem_write (mapped one_page_disk) 4096 (replicate 4096 7)\<rparr>) \<and>
   EvictFrame dirty_pool one_page_disk 0 =
     Inr (dirty_pool\<lparr>page_table := [], lru_list := [],
                     frames := [\<lparr>page_id = INVALID_PAGE_ID, pin_count = 0, dirty = False,
                                 frame_data = replicate 4096 7\<rparr>]\<rparr>,
          one_page_disk\<lparr>mapped := mem_write (mapped one_page_disk) 4096 (replicate 4096 7)\<rparr>) \<and>
   wal dirty_pool = Some new_wal \<and>
   ReadAllRecords new_wal = [] \<and>
   Recover new_wal one_page_disk = Some (Inr (0, new_wal, one_page_disk))"
proof (intro conjI)
  show "FlushPage dirty_pool one_page_disk 4096 =
     Inr (True,
          dirty_pool\<lparr>frames := [\<lparr>page_id = 4096, pin_count = 0, dirty = False,
                                  frame_data = replicate 4096 7\<rparr>]\<rparr>,
          one_page_disk\<lparr>mapped := mem_write (mapped one_page_disk) 4096 (replicate 4096 7)\<rparr>)"
    using dirty_pool_table by (simp add: FlushPage_def flush_frame_dirty_pool)
  show "FlushAllPages dirty_pool one_page_disk =
     Inr (dirty_pool\<lparr>frames := [\<lparr>page_id = 4096, pin_count = 0, dirty = False,
                                  frame_data = replicate 4096 7\<rparr>]\<rparr>,
          one_page_disk\<lparr>mapped := mem_write (mapped one_page_disk) 4096 (replicate 4096 7)\<rparr>)"
    using dirty_pool_table by (simp add: FlushAllPages_def flush_frame_dirty_pool)
  show "EvictFrame dirty_pool one_page_disk 0 =
     Inr (dirty_pool\<lparr>page_table := [], lru_list := [],
                     frames := [\<lparr>page_id = INVALID_PAGE_ID, pin_count = 0, dirty = False,
                                 frame_data = replicate 4096 7\<rparr>]\<rparr>,
          one_page_disk\<lparr>mapped := mem_write (mapped one_page_disk) 4096 (replicate 4096 7)\<rparr>)"
    by (simp add: EvictFrame_def dirty_pool_def PageData_def one_page_disk_meta PAGE_SIZE_def
        INVALID_PAGE_ID_def table_erase_def Let_def)
  show "wal dirty_pool = Some new_wal" by (simp add: dirty_pool_def)
  show "ReadAllRecords new_wal = []" by (rule ReadAllRecords_new_wal)
  show "Recover new_wal one_page_disk = Some (Inr (0, new_wal, one_page_disk))"
    by (simp add: Recover_def ReadAllRecords_new_wal Let_def)
qed


section \<open>Properties of the tree: single pages\<close>

lemma set_insert_at [simp]: "set (insert_at pos x xs) = insert x (set xs)"
proof -
  have "set (take pos xs) \<union> set (drop pos xs) = set xs"
    by (metis append_take_drop_id set_append)
  then show ?thesis by (auto simp add: insert_at_def)
qed

lemma length_insert_at [simp]: "length (insert_at pos x xs) = Suc (length xs)"
  by (simp add: insert_at_def)

lemma insert_at_0 [simp]: "insert_at 0 x xs = x # xs"
  by (simp add: insert_at_def)

lemma insert_at_Suc [simp]: "insert_at (Suc n) x (y # ys) = y # insert_at n x ys"
  by (simp add: insert_at_def)

lemma lower_bound_Nil [simp]: "lower_bound [] key = 0"
  by (simp add: lower_bound_def)

lemma lower_bound_Cons [simp]:
  "lower_bound (s # slots) key = (if fst s < key then Suc (lower_bound slots key) else 0)"
  by (simp add: lower_bound_def)

lemma sorted_insert_at_lower_bound:
  "sorted_wrt (<) (map fst slots) \<Longrightarrow> key \<notin> fst ` set slots \<Longrightarrow>
   sorted_wrt (<) (map fst (insert_at (lower_bound slots key) (key, v) slots))"
proof (induction slots)
  case Nil
  then show ?case by simp
next
  case (Cons s slots)
  then show ?case by (cases s) (auto simp add: less_le)
qed

lemma find_record_None_iff: "find_record recs key = None \<longleftrightarrow> key \<notin> fst ` set recs"
  by (induction recs) (auto split: if_splits)

text \<open>
  Claim C6.  An insert into a full leaf (35 records in key order) of a key the leaf
  does not hold splits the leaf: the 36 records in key order are divided, the first
  18 stay in the leaf, the other 18 go to the page \<open>AllocPage\<close> hands out; the new
  leaf takes over the old \<open>next_leaf\<close>, the old leaf points to the new one, and the
  separator returned to the parent is the first key of the new leaf.
\<close>

theorem insert_into_full_leaf_splits:
  assumes "pages t leaf_off = Leaf recs nx"
    and "0 \<le> leaf_off" "leaf_off + PAGE_SIZE \<le> disk_size t"
    and "length recs = LEAF_MAX_KEYS" "sorted_wrt (<) (map fst recs)" "key \<notin> fst ` set recs"
    and "AllocPage t = Inr (new_off, t1)" "new_off \<noteq> leaf_off"
    and "0 \<le> new_off" "new_off + PAGE_SIZE \<le> disk_size t1"
  shows "\<exists>all. length all = 36 \<and> sorted_wrt (<) (map fst all) \<and>
           set all = insert (key, dat) (set recs) \<and>
           InsertIntoLeaf t leaf_off key dat =
             Inr (t1\<lparr>pages := (pages t1)(new_off := Leaf (drop 18 all) nx,
                                          leaf_off := Leaf (take 18 all) new_off)\<rparr>,
                  Some (fst (all ! 18), new_off))"
proof -
  define all where "all = insert_at (lower_bound recs key) (key, dat) recs"
  have len: "length all = 36"
    using assms(4) by (simp add: all_def LEAF_MAX_KEYS_def)
  have srt: "sorted_wrt (<) (map fst all)"
    unfolding all_def by (rule sorted_insert_at_lower_bound [OF assms(5,6)])
  have st: "set all = insert (key, dat) (set recs)"
    by (simp add: all_def)
  have pin: "PinPage t leaf_off = Inr (Leaf recs nx)"
    using assms(1,2,3) by (simp add: PinPage_def)
  have nf: "find_record recs key = None"
    using assms(6) by (simp add: find_record_None_iff)
  have pin3: "PinPage (UnpinPage (UnpinPage t1 new_off (Leaf (drop 18 all) nx)) leaf_off
                (Leaf (take 18 all) new_off)) new_off = Inr (Leaf (drop 18 all) nx)"
    using assms(8,9,10) by (simp add: PinPage_def UnpinPage_def)
  have key18: "KeyAt (drop 18 all) 0 = fst (all ! 18)"
    using len by (simp add: KeyAt_def)
  have "InsertIntoLeaf t leaf_off key dat =
          Inr (t1\<lparr>pages := (pages t1)(new_off := Leaf (drop 18 all) nx,
                                       leaf_off := Leaf (take 18 all) new_off)\<rparr>,
               Some (fst (all ! 18), new_off))"
    using assms(4) len
    by (simp add: InsertIntoLeaf_def pin nf assms(7) Let_def all_def [symmetric]
        pin3 key18) (simp add: UnpinPage_def)
  with len srt st show ?thesis by blast
qed

theorem insert_into_full_leaf_splits_witness:
  "InsertIntoLeaf full_leaf_tree 4096 185 (padded ''new'') =
     Inr (full_leaf_tree
            \<lparr>pages := (pages full_leaf_tree)
               (8192 := Leaf (drop 18 (insert_at 18 (185, padded ''new'') full_leaf_records)) (- 1),
                4096 := Leaf (take 18 (insert_at 18 (185, padded ''new'') full_leaf_records)) 8192),
             disk_next := 12288, next_page_offset := 12288\<rparr>,
          Some (185, 8192))"
proof -
  have alloc: "AllocPage full_leaf_tree =
      Inr (8192, full_leaf_tree\<lparr>pages := (pages full_leaf_tree)(8192 := zero_page),
                                disk_size := 1048576,
                                disk_next := 12288, next_page_offset := 12288\<rparr>)"
    by (simp add: AllocPage_def full_leaf_tree_def INVALID_PAGE_ID_def PAGE_SIZE_def
        grown_size_def)
  have lb: "lower_bound full_leaf_records 185 = 18"
    by (simp add: full_leaf_records_def)
  have srt: "sorted_wrt (<) (map fst full_leaf_records)"
    by (simp add: full_leaf_records_def)
  have nin: "185 \<notin> fst ` set full_leaf_records"
    by (simp add: full_leaf_records_def)
  have len: "length full_leaf_records = LEAF_MAX_KEYS"
    by (simp add: full_leaf_records_def LEAF_MAX_KEYS_def)
  have pg: "pages full_leaf_tree 4096 = Leaf full_leaf_records (- 1)"
    by (simp add: full_leaf_tree_def)
  have sz: "(0 :: int) \<le> 4096" "4096 + PAGE_SIZE \<le> disk_size full_leaf_tree"
      "(8192 :: int) \<noteq> 4096" "(0 :: int) \<le> 8192"
      "8192 + PAGE_SIZE \<le> disk_size (full_leaf_tree\<lparr>pages := (pages full_leaf_tree)(8192 := zero_page),
                                disk_size := 1048576,
                                disk_next := 12288, next_page_offset := 12288\<rparr>)"
    by (simp_all add: full_leaf_tree_def PAGE_SIZE_def)
  from insert_into_full_leaf_splits [OF pg sz(1,2) len srt nin alloc sz(3,4,5), of "padded ''new''"]
  obtain all where a: "length all = 36" "sorted_wrt (<) (map fst all)"
      "set all = insert (185, padded ''new'') (set full_leaf_records)"
      "InsertIntoLeaf full_leaf_tree 4096 185 (padded ''new'') =
        Inr (full_leaf_tree\<lparr>pages := (pages full_leaf_tree)(8192 := zero_page),
                                disk_size := 1048576,
                                disk_next := 12288, next_page_offset := 12288\<rparr>
              \<lparr>pages := (pages (full_leaf_tree\<lparr>pages := (pages full_leaf_tree)(8192 := zero_page),
                                disk_size := 1048576,
                                disk_next := 12288, next_page_offset := 12288\<rparr>))
                  (8192 := Leaf (drop 18 all) (- 1), 4096 := Leaf (take 18 all) 8192)\<rparr>,
             Some (fst (all ! 18), 8192))"
    by blast
  have direct: "InsertIntoLeaf full_leaf_tree 4096 185 (padded ''new'') =
     Inr (full_leaf_tree
            \<lparr>pages := (pages full_leaf_tree)
               (8192 := Leaf (drop 18 (insert_at 18 (185, padded ''new'') full_leaf_records)) (- 1),
                4096 := Leaf (take 18 (insert_at 18 (185, padded ''new'') full_leaf_records)) 8192),
             disk_next := 12288, next_page_offset := 12288\<rparr>,
          Some (KeyAt (drop 18 (insert_at 18 (185, padded ''new'') full_leaf_records)) 0, 8192))"
    using len
    by (simp add: InsertIntoLeaf_def PinPage_def pg sz find_record_None_iff nin alloc lb Let_def
        UnpinPage_def LEAF_MAX_KEYS_def PAGE_SIZE_def)
      (simp add: full_leaf_tree_def)
  have k: "KeyAt (drop 18 (insert_at 18 (185, padded ''new'') full_leaf_records)) 0 = 185"
    by (simp add: KeyAt_def insert_at_def full_leaf_records_def)
  from direct k a(4) show ?thesis by simp
qed

text \<open>
  Claim C9 (the code departs from it).  A child offset below \<open>PAGE_SIZE\<close> makes the
  search answer \<open>NotFound\<close> when it is not negative; a child offset beyond the end of
  the file, or a negative one on the insert path, reaches \<open>PageData\<close> and the search,
  the insert and the delete end in its exception.
\<close>

theorem stray_child_offset_raises:
  "Search 10 stray_child_tree 5 = Inl PageOutOfRange \<and>
   Insert 10 stray_child_tree 5 ''v'' = Inl PageOutOfRange \<and>
   Delete 10 stray_child_tree 5 = Inl PageOutOfRange \<and>
   Search 10 negative_child_tree 5 = Inr (NotFound, None) \<and>
   Delete 10 negative_child_tree 5 = Inr (NotFound, negative_child_tree) \<and>
   Insert 10 negative_child_tree 5 ''v'' = Inl PageOutOfRange"
  by (simp add: Search_def SearchLeaf_def Insert_def Delete_def PinPage_def ChildAt_def
      stray_child_tree_def negative_child_tree_def INVALID_PAGE_ID_def PAGE_SIZE_def
      eval_nat_numeral Let_def)

section \<open>Properties of the tree: the store\<close>

lemma children_nth: "j \<le> length kcs \<Longrightarrow> children c0 kcs ! j = ChildAt c0 kcs j"
  by (cases j) (simp_all add: children_def ChildAt_def)

lemma length_children [simp]: "length (children c0 kcs) = Suc (length kcs)"
  by (simp add: children_def)

lemma ChildAt_in_children: "j \<le> length kcs \<Longrightarrow> ChildAt c0 kcs j \<in> set (children c0 kcs)"
  using children_nth [of j kcs c0] nth_mem [of j "children c0 kcs"] by simp

lemma fp_self: "p \<in> set (fp pg h p)"
  by (cases h) (simp_all split: page.splits)

lemma fp_child:
  "pg p = Internal c0 kcs \<Longrightarrow> c \<in> set (children c0 kcs) \<Longrightarrow>
   set (fp pg h c) \<subseteq> set (fp pg (Suc h) p)"
  by auto

lemma agree_on_fp:
  "\<forall>q \<in> set (fp pg h p). pg' q = pg q \<Longrightarrow>
   fp pg' h p = fp pg h p \<and> recs_of pg' h p = recs_of pg h p"
proof (induction h arbitrary: p)
  case 0
  then show ?case by simp
next
  case (Suc h)
  have top: "pg' p = pg p" using Suc.prems fp_self by blast
  show ?case
  proof (cases "pg p")
    case (Internal c0 kcs)
    have "\<forall>c \<in> set (children c0 kcs). fp pg' h c = fp pg h c \<and> recs_of pg' h c = recs_of pg h c"
    proof
      fix c assume c: "c \<in> set (children c0 kcs)"
      have "\<forall>q \<in> set (fp pg h c). pg' q = pg q"
        using Suc.prems fp_child [of pg p c0 kcs c h] Internal c by blast
      then show "fp pg' h c = fp pg h c \<and> recs_of pg' h c = recs_of pg h c"
        by (rule Suc.IH)
    qed
    then have e: "map (fp pg' h) (children c0 kcs) = map (fp pg h) (children c0 kcs)"
      "map (recs_of pg' h) (children c0 kcs) = map (recs_of pg h) (children c0 kcs)"
      by simp_all
    have p': "pg' p = Internal c0 kcs" using top Internal by simp
    show ?thesis by (simp add: p' Internal e)
  next
    case (Leaf recs nx)
    then have "pg' p = Leaf recs nx" using top by simp
    then show ?thesis using Leaf by simp
  next
    case (Freed l)
    then have "pg' p = Freed l" using top by simp
    then show ?thesis using Freed by simp
  qed
qed

lemma agree_keys_of:
  "\<forall>q \<in> set (fp pg h p). pg' q = pg q \<Longrightarrow> keys_of pg' h p = keys_of pg h p"
  using agree_on_fp [of pg h p pg'] by (simp add: keys_of_def)

lemma agree_sub:
  "\<forall>q \<in> set (fp pg h p). pg' q = pg q \<Longrightarrow> sub pg' h m p = sub pg h m p"
proof (induction h arbitrary: p m)
  case 0
  then show ?case by simp
next
  case (Suc h)
  have top: "pg' p = pg p" using Suc.prems fp_self by blast
  show ?case
  proof (cases "pg p")
    case (Internal c0 kcs)
    have ag: "\<And>c. c \<in> set (children c0 kcs) \<Longrightarrow> \<forall>q \<in> set (fp pg h c). pg' q = pg q"
      using Suc.prems fp_child [of pg p c0 kcs _ h] Internal by blast
    have s: "\<And>c. c \<in> set (children c0 kcs) \<Longrightarrow>
        sub pg' h (minkeys h) c = sub pg h (minkeys h) c"
      using ag Suc.IH by blast
    have k: "\<And>j. j \<le> length kcs \<Longrightarrow>
        keys_of pg' h (ChildAt c0 kcs j) = keys_of pg h (ChildAt c0 kcs j)"
      using ag agree_keys_of ChildAt_in_children by blast
    have p': "pg' p = Internal c0 kcs" using top Internal by simp
    have "(\<forall>c \<in> set (children c0 kcs). sub pg' h (minkeys h) c) =
          (\<forall>c \<in> set (children c0 kcs). sub pg h (minkeys h) c)"
      using s by blast
    moreover have "(\<forall>j < length kcs.
             (\<forall>k \<in> keys_of pg' h (ChildAt c0 kcs j). k < fst (kcs ! j)) \<and>
             (\<forall>k \<in> keys_of pg' h (ChildAt c0 kcs (Suc j)). fst (kcs ! j) \<le> k)) =
          (\<forall>j < length kcs.
             (\<forall>k \<in> keys_of pg h (ChildAt c0 kcs j). k < fst (kcs ! j)) \<and>
             (\<forall>k \<in> keys_of pg h (ChildAt c0 kcs (Suc j)). fst (kcs ! j) \<le> k))"
      using k by (metis Suc_leI less_imp_le_nat)
    ultimately show ?thesis
      unfolding sub.simps p' Internal page.case by blast
  next
    case (Leaf recs nx)
    then have "pg' p = Leaf recs nx" using top by simp
    then show ?thesis using Leaf by simp
  next
    case (Freed l)
    then have "pg' p = Freed l" using top by simp
    then show ?thesis using Freed by simp
  qed
qed

lemma chain_agree:
  "\<forall>q \<in> set ps. pg' q = pg q \<Longrightarrow> chain pg' h0 ps = chain pg h0 ps"
  by (induction ps arbitrary: h0) (auto split: page.splits)

lemma grown_size_ge: "required \<le> grown_size fsize required"
proof (cases "required \<le> fsize")
  case True
  then show ?thesis by (simp add: grown_size_def)
next
  case False
  have a: "\<And>x :: int. x \<le> ((x + 4095) div 4096) * 4096"
    by (simp add: algebra_simps)
  have "required \<le> ((required + 4095) div 4096) * 4096" by (rule a)
  also have "\<dots> \<le> max (((required + 4095) div 4096) * 4096) (max (fsize * 2) (2 ^ 20))"
    by simp
  also have "\<dots> \<le> ((max (((required + 4095) div 4096) * 4096) (max (fsize * 2) (2 ^ 20))
      + 4095) div 4096) * 4096"
    by (rule a)
  finally show ?thesis using False by (simp add: grown_size_def PAGE_SIZE_def)
qed

lemma AllocPage_ok:
  assumes "alloc_ok t fl"
  shows "\<exists>p t' fl'. AllocPage t = Inr (p, t') \<and> alloc_ok t' fl' \<and>
           pages t' = (pages t)(p := zero_page) \<and>
           p \<notin> set fl' \<and> PAGE_SIZE \<le> p \<and> p + PAGE_SIZE \<le> disk_next t' \<and>
           (p \<in> set fl \<or> disk_next t \<le> p) \<and> set fl' \<subseteq> set fl \<and>
           disk_next t \<le> disk_next t' \<and> root_offset t' = root_offset t"
proof (cases fl)
  case Nil
  then have h: "disk_free t = INVALID_PAGE_ID" using assms by (simp add: alloc_ok_def)
  define t' where "t' = t\<lparr>pages := (pages t)(disk_next t := zero_page),
                  disk_size := grown_size (disk_size t) (disk_next t + PAGE_SIZE),
                  disk_next := disk_next t + PAGE_SIZE,
                  next_page_offset := disk_next t + PAGE_SIZE\<rparr>"
  have a: "AllocPage t = Inr (disk_next t, t')" using h by (simp add: AllocPage_def t'_def)
  have n: "PAGE_SIZE \<le> disk_next t" "disk_next t \<le> disk_size t"
    using assms by (simp_all add: alloc_ok_def)
  have b: "alloc_ok t' []"
    using n h grown_size_ge [of "disk_next t + PAGE_SIZE" "disk_size t"]
    by (simp add: alloc_ok_def t'_def PAGE_SIZE_def)
  have c: "pages t' = (pages t)(disk_next t := zero_page)" "disk_next t' = disk_next t + PAGE_SIZE"
    "root_offset t' = root_offset t"
    by (simp_all add: t'_def)
  show ?thesis
    apply (rule exI [of _ "disk_next t"], rule exI [of _ t'], rule exI [of _ "[]"])
    using a b c n by (simp add: PAGE_SIZE_def)
next
  case (Cons p ps)
  then obtain l where h: "disk_free t = p" "p \<noteq> INVALID_PAGE_ID" "pages t p = Freed l"
    "chain (pages t) l ps"
    using assms by (auto simp add: alloc_ok_def split: page.splits)
  define t' where "t' = t\<lparr>pages := (pages t)(p := zero_page), disk_free := l,
                       next_page_offset := disk_next t\<rparr>"
  have a: "AllocPage t = Inr (p, t')" using h by (simp add: AllocPage_def t'_def)
  have d: "p \<notin> set ps" "distinct ps"
    "\<forall>q \<in> set ps. PAGE_SIZE \<le> q \<and> q + PAGE_SIZE \<le> disk_next t"
    "PAGE_SIZE \<le> p" "p + PAGE_SIZE \<le> disk_next t"
    "PAGE_SIZE \<le> disk_next t" "disk_next t \<le> disk_size t"
    using assms Cons by (simp_all add: alloc_ok_def)
  have "chain ((pages t)(p := zero_page)) l ps = chain (pages t) l ps"
    using d(1) by (intro chain_agree) auto
  then have b: "alloc_ok t' ps"
    using d h(4) by (simp add: alloc_ok_def t'_def)
  have c: "pages t' = (pages t)(p := zero_page)" "disk_next t' = disk_next t"
    "root_offset t' = root_offset t"
    by (simp_all add: t'_def)
  show ?thesis
    apply (rule exI [of _ p], rule exI [of _ t'], rule exI [of _ ps])
    using a b c d Cons by auto
qed

lemma DeallocPage_ok:
  assumes "alloc_ok t fl" "p \<notin> set fl" "PAGE_SIZE \<le> p" "p + PAGE_SIZE \<le> disk_next t"
  shows "alloc_ok (DeallocPage t p) (p # fl)"
    and "pages (DeallocPage t p) = (pages t)(p := Freed (disk_free t))"
    and "disk_next (DeallocPage t p) = disk_next t"
    and "root_offset (DeallocPage t p) = root_offset t"
proof -
  have "chain ((pages t)(p := Freed (disk_free t))) (disk_free t) fl = chain (pages t) (disk_free t) fl"
    using assms(2) by (intro chain_agree) auto
  then show "alloc_ok (DeallocPage t p) (p # fl)"
    using assms by (simp add: alloc_ok_def DeallocPage_def INVALID_PAGE_ID_def PAGE_SIZE_def)
  show "pages (DeallocPage t p) = (pages t)(p := Freed (disk_free t))"
    "disk_next (DeallocPage t p) = disk_next t"
    "root_offset (DeallocPage t p) = root_offset t"
    using assms(3) by (simp_all add: DeallocPage_def)
qed


section \<open>Properties of the tree: order and search\<close>

lemma minkeys_pos: "0 < minkeys h"
  by (simp add: minkeys_def LEAF_MIN_KEYS_def LEAF_MAX_KEYS_def INTERNAL_MIN_KEYS_def
      INTERNAL_MAX_KEYS_def)

lemma sub_nonempty: "sub pg h m p \<Longrightarrow> 0 < m \<or> 0 < h \<Longrightarrow> recs_of pg h p \<noteq> []"
proof (induction h arbitrary: m p)
  case 0
  then show ?case by (auto split: page.splits)
next
  case (Suc h)
  from Suc.prems(1) obtain c0 kcs where pg: "pg p = Internal c0 kcs"
    and c: "sub pg h (minkeys h) c0"
    by (auto simp add: children_def split: page.splits)
  from Suc.IH [OF c] minkeys_pos have "recs_of pg h c0 \<noteq> []" by blast
  then show ?case using pg by (simp add: children_def)
qed

lemma sub_keys_nonempty: "sub pg h (minkeys h) p \<Longrightarrow> keys_of pg h p \<noteq> {}"
  using sub_nonempty [of pg h "minkeys h" p] minkeys_pos [of h] by (simp add: keys_of_def)

text \<open>Inside a well-formed internal node the separators ascend.\<close>

lemma seps_step:
  assumes "sub pg (Suc h) m p" "pg p = Internal c0 kcs" "Suc j < length kcs"
  shows "fst (kcs ! j) < fst (kcs ! Suc j)"
proof -
  have c: "sub pg h (minkeys h) (ChildAt c0 kcs (Suc j))"
    using assms ChildAt_in_children [of "Suc j" kcs c0] by simp
  then obtain k where k: "k \<in> keys_of pg h (ChildAt c0 kcs (Suc j))"
    using sub_keys_nonempty by blast
  have "fst (kcs ! j) \<le> k" using assms k by simp
  moreover have "k < fst (kcs ! Suc j)" using assms k by simp
  ultimately show ?thesis by simp
qed

lemma seps_mono:
  assumes "sub pg (Suc h) m p" "pg p = Internal c0 kcs"
  shows "i \<le> j \<Longrightarrow> j < length kcs \<Longrightarrow> fst (kcs ! i) \<le> fst (kcs ! j)"
proof (induction j)
  case 0
  then show ?case by simp
next
  case (Suc j)
  show ?case
  proof (cases "i = Suc j")
    case True
    then show ?thesis by simp
  next
    case False
    then have "fst (kcs ! i) \<le> fst (kcs ! j)" using Suc by simp
    moreover have "fst (kcs ! j) < fst (kcs ! Suc j)"
      using seps_step [OF assms] Suc.prems by simp
    ultimately show ?thesis by simp
  qed
qed

lemma seps_strict:
  assumes "sub pg (Suc h) m p" "pg p = Internal c0 kcs" "i < j" "j < length kcs"
  shows "fst (kcs ! i) < fst (kcs ! j)"
proof -
  obtain j' where j': "j = Suc j'" using assms(3) by (cases j) auto
  have "fst (kcs ! i) \<le> fst (kcs ! j')" using seps_mono [OF assms(1,2), of i j'] assms j' by simp
  moreover have "fst (kcs ! j') < fst (kcs ! j)" using seps_step [OF assms(1,2), of j'] assms j' by simp
  ultimately show ?thesis by simp
qed

lemma sub_sep_lt:
  "sub pg (Suc h) m p \<Longrightarrow> pg p = Internal c0 kcs \<Longrightarrow> j < length kcs \<Longrightarrow>
   k \<in> keys_of pg h (ChildAt c0 kcs j) \<Longrightarrow> k < fst (kcs ! j)"
  by auto

lemma sub_sep_ge:
  "sub pg (Suc h) m p \<Longrightarrow> pg p = Internal c0 kcs \<Longrightarrow> j < length kcs \<Longrightarrow>
   k \<in> keys_of pg h (ChildAt c0 kcs (Suc j)) \<Longrightarrow> fst (kcs ! j) \<le> k"
  by auto

text \<open>The keys below different children of one node are separated.\<close>

lemma child_keys_lt:
  assumes "sub pg (Suc h) m p" "pg p = Internal c0 kcs" "j < length kcs" "i \<le> j"
    "k \<in> keys_of pg h (ChildAt c0 kcs i)"
  shows "k < fst (kcs ! j)"
proof -
  have "i < length kcs" using assms by simp
  then have "k < fst (kcs ! i)" using sub_sep_lt [OF assms(1,2) _ assms(5)] by simp
  then show ?thesis using seps_mono [OF assms(1,2), of i j] assms(3,4) by simp
qed

lemma child_keys_ge:
  assumes "sub pg (Suc h) m p" "pg p = Internal c0 kcs" "j < i" "i \<le> length kcs"
    "k \<in> keys_of pg h (ChildAt c0 kcs i)"
  shows "fst (kcs ! j) \<le> k"
proof -
  obtain i' where i': "i = Suc i'" using assms(3) by (cases i) auto
  have "fst (kcs ! i') \<le> k" using sub_sep_ge [OF assms(1,2), of i' k] assms i' by simp
  then show ?thesis using seps_mono [OF assms(1,2), of j i'] assms(3,4) i' by simp
qed

lemma child_keys_sep:
  assumes "sub pg (Suc h) m p" "pg p = Internal c0 kcs" "i < j" "j \<le> length kcs"
    "a \<in> keys_of pg h (ChildAt c0 kcs i)" "b \<in> keys_of pg h (ChildAt c0 kcs j)"
  shows "a < b"
proof -
  have "a < fst (kcs ! i)" using child_keys_lt [OF assms(1,2), of i i a] assms by simp
  moreover have "fst (kcs ! i) \<le> b" using child_keys_ge [OF assms(1,2), of i j b] assms by simp
  ultimately show ?thesis by simp
qed

lemma sorted_wrt_concat:
  "(\<forall>xs \<in> set xss. sorted_wrt P xs) \<Longrightarrow>
   (\<forall>i j. i < j \<longrightarrow> j < length xss \<longrightarrow> (\<forall>a \<in> set (xss ! i). \<forall>b \<in> set (xss ! j). P a b)) \<Longrightarrow>
   sorted_wrt P (concat xss)"
proof (induction xss)
  case Nil
  then show ?case by simp
next
  case (Cons xs xss)
  have rest: "sorted_wrt P (concat xss)"
  proof (rule Cons.IH)
    show "\<forall>xs \<in> set xss. sorted_wrt P xs" using Cons.prems(1) by simp
    show "\<forall>i j. i < j \<longrightarrow> j < length xss \<longrightarrow> (\<forall>a \<in> set (xss ! i). \<forall>b \<in> set (xss ! j). P a b)"
    proof (intro allI impI)
      fix i j assume "i < j" "j < length xss"
      then show "\<forall>a \<in> set (xss ! i). \<forall>b \<in> set (xss ! j). P a b"
        using Cons.prems(2) [rule_format, of "Suc i" "Suc j"] by simp
    qed
  qed
  have cross: "\<forall>a \<in> set xs. \<forall>b \<in> set (concat xss). P a b"
  proof (intro ballI)
    fix a b assume a: "a \<in> set xs" and b: "b \<in> set (concat xss)"
    then obtain ys where "ys \<in> set xss" "b \<in> set ys" by auto
    then obtain j where "j < length xss" "xss ! j = ys" by (auto simp add: in_set_conv_nth)
    then show "P a b"
      using Cons.prems(2) [rule_format, of 0 "Suc j"] a \<open>b \<in> set ys\<close> by simp
  qed
  show ?case using Cons.prems(1) rest cross by (simp add: sorted_wrt_append)
qed

lemma sub_sorted: "sub pg h m p \<Longrightarrow> sorted_wrt (<) (map fst (recs_of pg h p))"
proof (induction h arbitrary: m p)
  case 0
  then show ?case by (auto split: page.splits)
next
  case (Suc h)
  from Suc.prems obtain c0 kcs where pg: "pg p = Internal c0 kcs"
    by (auto split: page.splits)
  have cs: "\<And>c. c \<in> set (children c0 kcs) \<Longrightarrow> sub pg h (minkeys h) c"
    using Suc.prems pg by simp
  have "sorted_wrt (<) (concat (map (\<lambda>c. map fst (recs_of pg h c)) (children c0 kcs)))"
  proof (rule sorted_wrt_concat)
    show "\<forall>xs \<in> set (map (\<lambda>c. map fst (recs_of pg h c)) (children c0 kcs)). sorted_wrt (<) xs"
      using cs Suc.IH by auto
    show "\<forall>i j. i < j \<longrightarrow> j < length (map (\<lambda>c. map fst (recs_of pg h c)) (children c0 kcs)) \<longrightarrow>
        (\<forall>a \<in> set (map (\<lambda>c. map fst (recs_of pg h c)) (children c0 kcs) ! i).
         \<forall>b \<in> set (map (\<lambda>c. map fst (recs_of pg h c)) (children c0 kcs) ! j). a < b)"
    proof (intro allI impI ballI)
      fix i j a b
      assume ij: "i < j" "j < length (map (\<lambda>c. map fst (recs_of pg h c)) (children c0 kcs))"
        and a: "a \<in> set (map (\<lambda>c. map fst (recs_of pg h c)) (children c0 kcs) ! i)"
        and b: "b \<in> set (map (\<lambda>c. map fst (recs_of pg h c)) (children c0 kcs) ! j)"
      have j: "j \<le> length kcs" using ij by simp
      have "a \<in> keys_of pg h (ChildAt c0 kcs i)"
        using a ij j by (simp add: keys_of_def children_nth)
      moreover have "b \<in> keys_of pg h (ChildAt c0 kcs j)"
        using b ij j by (simp add: keys_of_def children_nth)
      ultimately show "a < b"
        using child_keys_sep [OF Suc.prems pg, of i j a b] ij j by simp
    qed
  qed
  then show ?case using pg by (simp add: map_concat comp_def)
qed

lemma child_index_le: "child_index kcs key \<le> length kcs"
  by (induction kcs) auto

lemma child_index_below: "j < child_index kcs key \<Longrightarrow> fst (kcs ! j) \<le> key"
proof (induction kcs arbitrary: j)
  case Nil
  then show ?case by simp
next
  case (Cons s kcs)
  then show ?case by (cases s; cases j) (auto split: if_splits)
qed

lemma child_index_above: "child_index kcs key < length kcs \<Longrightarrow> key < fst (kcs ! child_index kcs key)"
proof (induction kcs)
  case Nil
  then show ?case by simp
next
  case (Cons s kcs)
  then show ?case by (cases s) (auto split: if_splits)
qed

lemma find_record_append:
  "find_record (xs @ ys) key =
     (case find_record xs key of Some d \<Rightarrow> Some d | None \<Rightarrow> find_record ys key)"
  by (induction xs) auto

lemma find_record_absent: "key \<notin> fst ` set recs \<Longrightarrow> find_record recs key = None"
  by (simp add: find_record_None_iff)

text \<open>The child chosen by the descent is the only one that can hold the key.\<close>

lemma other_child_lacks_key:
  assumes "sub pg (Suc h) m p" "pg p = Internal c0 kcs" "j \<le> length kcs"
    "j \<noteq> child_index kcs key"
  shows "key \<notin> keys_of pg h (ChildAt c0 kcs j)"
proof
  assume k: "key \<in> keys_of pg h (ChildAt c0 kcs j)"
  let ?i = "child_index kcs key"
  show False
  proof (cases "j < ?i")
    case True
    then have "j < length kcs" using child_index_le [of kcs key] by simp
    then have "key < fst (kcs ! j)" using assms k by simp
    then show False using child_index_below [OF True] by simp
  next
    case False
    then have lt: "?i < j" using assms by simp
    then have "fst (kcs ! ?i) \<le> key"
      using child_keys_ge [OF assms(1,2), of ?i j key] assms k by simp
    moreover have "key < fst (kcs ! ?i)"
      using child_index_above [of kcs key] lt assms by simp
    ultimately show False by simp
  qed
qed

lemma find_record_concat_absent:
  "\<forall>c \<in> set cs. key \<notin> fst ` set (R c) \<Longrightarrow> find_record (concat (map R cs)) key = None"
  by (rule find_record_absent) auto

lemma find_record_child:
  assumes "sub pg (Suc h) m p" "pg p = Internal c0 kcs"
  shows "find_record (recs_of pg (Suc h) p) key =
         find_record (recs_of pg h (ChildAt c0 kcs (child_index kcs key))) key"
proof -
  let ?i = "child_index kcs key"
  let ?cs = "children c0 kcs"
  have i: "?i < length ?cs" using child_index_le [of kcs key] by simp
  have ci: "?cs ! ?i = ChildAt c0 kcs ?i"
    using child_index_le [of kcs key] by (simp add: children_nth)
  have pre: "\<forall>c \<in> set (take ?i ?cs). key \<notin> fst ` set (recs_of pg h c)"
  proof
    fix c assume "c \<in> set (take ?i ?cs)"
    then obtain j where j: "j < ?i" "c = ?cs ! j"
      using i by (auto simp add: in_set_conv_nth)
    then have "c = ChildAt c0 kcs j" using child_index_le [of kcs key] by (simp add: children_nth)
    moreover have "key \<notin> keys_of pg h (ChildAt c0 kcs j)"
      using other_child_lacks_key [OF assms, of j key] j child_index_le [of kcs key] by simp
    ultimately show "key \<notin> fst ` set (recs_of pg h c)" by (simp add: keys_of_def)
  qed
  have post: "\<forall>c \<in> set (drop (Suc ?i) ?cs). key \<notin> fst ` set (recs_of pg h c)"
  proof
    fix c assume "c \<in> set (drop (Suc ?i) ?cs)"
    then obtain j where j: "j < length ?cs - Suc ?i" "c = ?cs ! (Suc ?i + j)"
      by (auto simp add: in_set_conv_nth)
    then have "c = ChildAt c0 kcs (Suc ?i + j)" by (simp add: children_nth)
    moreover have "key \<notin> keys_of pg h (ChildAt c0 kcs (Suc ?i + j))"
      using other_child_lacks_key [OF assms, of "Suc ?i + j" key] j by simp
    ultimately show "key \<notin> fst ` set (recs_of pg h c)" by (simp add: keys_of_def)
  qed
  have "recs_of pg (Suc h) p = concat (map (recs_of pg h) ?cs)"
    using assms(2) by simp
  also have "\<dots> = concat (map (recs_of pg h) (take ?i ?cs @ ?cs ! ?i # drop (Suc ?i) ?cs))"
    by (rule arg_cong [where f = "\<lambda>xs. concat (map (recs_of pg h) xs)"])
      (rule id_take_nth_drop [OF i])
  also have "\<dots> = concat (map (recs_of pg h) (take ?i ?cs)) @ recs_of pg h (?cs ! ?i) @
      concat (map (recs_of pg h) (drop (Suc ?i) ?cs))"
    by simp
  finally have "recs_of pg (Suc h) p =
      concat (map (recs_of pg h) (take ?i ?cs)) @ recs_of pg h (?cs ! ?i) @
      concat (map (recs_of pg h) (drop (Suc ?i) ?cs))" .
  then show ?thesis
    using find_record_concat_absent [OF pre] find_record_concat_absent [OF post]
    by (simp add: find_record_append ci split: option.splits)
qed

lemma PinPage_Leaf:
  "pinnable t S \<Longrightarrow> q \<in> S \<Longrightarrow> pages t q = Leaf recs nx \<Longrightarrow> PinPage t q = Inr (Leaf recs nx)"
  by (auto simp add: pinnable_def PinPage_def PAGE_SIZE_def)

lemma PinPage_Internal:
  "pinnable t S \<Longrightarrow> q \<in> S \<Longrightarrow> pages t q = Internal c0 kcs \<Longrightarrow>
   PinPage t q = Inr (Internal c0 kcs)"
  by (auto simp add: pinnable_def PinPage_def PAGE_SIZE_def)

lemma descend_ok:
  assumes "sub (pages t) h m p" "pinnable t (set (fp (pages t) h p))" "h < fuel"
  shows "\<exists>l recs nx. descend fuel t p key = Inr l \<and> l \<in> set (fp (pages t) h p) \<and>
           pages t l = Leaf recs nx \<and>
           find_record recs key = find_record (recs_of (pages t) h p) key"
  using assms
proof (induction h arbitrary: m p fuel)
  case 0
  then obtain recs nx where pg: "pages t p = Leaf recs nx" by (auto split: page.splits)
  obtain f where f: "fuel = Suc f" using 0(3) by (cases fuel) auto
  have "PinPage t p = Inr (Leaf recs nx)"
    using PinPage_Leaf [OF 0(2) _ pg] by simp
  then show ?case using pg f by simp
next
  case (Suc h)
  then obtain c0 kcs where pg: "pages t p = Internal c0 kcs" by (auto split: page.splits)
  obtain f where f: "fuel = Suc f" "h < f" using Suc.prems(3) by (cases fuel) auto
  let ?c = "ChildAt c0 kcs (child_index kcs key)"
  have cin: "?c \<in> set (children c0 kcs)"
    using ChildAt_in_children [of "child_index kcs key" kcs c0] child_index_le by simp
  have csub: "sub (pages t) h (minkeys h) ?c" using Suc.prems(1) pg cin by simp
  have cfp: "set (fp (pages t) h ?c) \<subseteq> set (fp (pages t) (Suc h) p)"
    using fp_child [of "pages t" p c0 kcs ?c h] pg cin by simp
  have cpin: "pinnable t (set (fp (pages t) h ?c))"
    using Suc.prems(2) cfp by (auto simp add: pinnable_def)
  have cge: "PAGE_SIZE \<le> ?c"
    using cpin fp_self [of ?c "pages t" h] by (auto simp add: pinnable_def)
  from Suc.IH [OF csub cpin f(2)] obtain l recs nx where
    l: "descend f t ?c key = Inr l" "l \<in> set (fp (pages t) h ?c)" "pages t l = Leaf recs nx"
      "find_record recs key = find_record (recs_of (pages t) h ?c) key"
    by blast
  have pin: "PinPage t p = Inr (Internal c0 kcs)"
    using PinPage_Internal [OF Suc.prems(2) fp_self pg] .
  have "descend fuel t p key = Inr l"
    using pin cge l(1) f(1) by (simp add: Let_def)
  moreover have "find_record recs key = find_record (recs_of (pages t) (Suc h) p) key"
    using find_record_child [OF Suc.prems(1) pg, of key] l(4) by simp
  ultimately show ?case using l cfp by blast
qed

section \<open>Properties of the tree: slots of one node\<close>

lemma find_record_upsert:
  "find_record (upsert k d xs) k' = (if k' = k then Some d else find_record xs k')"
  by (induction xs) auto

lemma keys_upsert: "fst ` set (upsert k d xs) = insert k (fst ` set xs)"
proof (induction xs)
  case Nil
  then show ?case by simp
next
  case (Cons x xs)
  then show ?case by (cases x) (simp add: insert_commute)
qed

lemma sorted_upsert:
  "sorted_wrt (<) (map fst xs) \<Longrightarrow> sorted_wrt (<) (map fst (upsert k d xs))"
proof (induction xs)
  case Nil
  then show ?case by simp
next
  case (Cons x xs)
  obtain k' d' where x: "x = (k', d')" by (cases x)
  have "\<forall>y \<in> set (upsert k d xs). k' < fst y" if "k' < k"
  proof
    fix y assume "y \<in> set (upsert k d xs)"
    then have "fst y \<in> insert k (fst ` set xs)" using keys_upsert [of k d xs] by blast
    then show "k' < fst y" using Cons.prems x that by auto
  qed
  then show ?case using Cons x by auto
qed

lemma length_upsert:
  "sorted_wrt (<) (map fst xs) \<Longrightarrow>
   length (upsert k d xs) = (if k \<in> fst ` set xs then length xs else Suc (length xs))"
proof (induction xs)
  case Nil
  then show ?case by simp
next
  case (Cons x xs)
  obtain k' d' where x: "x = (k', d')" by (cases x)
  show ?case
  proof (cases "k < k'")
    case True
    then have "k \<notin> fst ` set (x # xs)" using Cons.prems x by force
    then show ?thesis using True x by simp
  next
    case False
    then show ?thesis using Cons x by auto
  qed
qed

lemma set_data_upsert:
  "sorted_wrt (<) (map fst xs) \<Longrightarrow> find_record xs k \<noteq> None \<Longrightarrow> set_data xs k d = upsert k d xs"
proof (induction xs)
  case Nil
  then show ?case by simp
next
  case (Cons x xs)
  obtain k' d' where x: "x = (k', d')" by (cases x)
  show ?case
  proof (cases "k = k'")
    case True
    then show ?thesis using x by simp
  next
    case False
    then have f: "find_record xs k \<noteq> None" using Cons.prems x by simp
    then have "k \<in> fst ` set xs" using find_record_None_iff [of xs k] by simp
    then have "k' < k" using Cons.prems x by auto
    then show ?thesis using Cons f x by simp
  qed
qed

lemma insert_at_upsert:
  "k \<notin> fst ` set xs \<Longrightarrow> insert_at (lower_bound xs k) (k, d) xs = upsert k d xs"
proof (induction xs)
  case Nil
  then show ?case by simp
next
  case (Cons x xs)
  obtain k' d' where x: "x = (k', d')" by (cases x)
  then show ?case using Cons by auto
qed

lemma dropWhile_above:
  "sorted_wrt (<) (map fst xs) \<Longrightarrow> k \<notin> fst ` set xs \<Longrightarrow>
   \<forall>x \<in> set (dropWhile (\<lambda>s. fst s < k) xs). (k :: int) < fst x"
proof (induction xs)
  case Nil
  then show ?case by simp
next
  case (Cons x xs)
  show ?case
  proof (cases "fst x < k")
    case True
    then show ?thesis using Cons by simp
  next
    case False
    have "fst x \<noteq> k" using Cons.prems(2) by auto
    then have "k < fst x" using False by simp
    moreover have "\<forall>y \<in> set xs. fst x < fst y" using Cons.prems(1) by simp
    ultimately show ?thesis using False by auto
  qed
qed

lemma takeWhile_none: "\<forall>x \<in> set xs. \<not> P x \<Longrightarrow> takeWhile P xs = []"
  by (cases xs) auto

lemma shift_pos_lower_bound:
  assumes "sorted_wrt (<) (map fst xs)" "k \<notin> fst ` set xs"
  shows "shift_pos xs k = lower_bound xs k"
proof -
  let ?P = "\<lambda>s. fst s < k"
  let ?Q = "\<lambda>s. k < fst s"
  let ?A = "takeWhile ?P xs"
  let ?B = "dropWhile ?P xs"
  have xs: "xs = ?A @ ?B" by simp
  have B: "\<forall>x \<in> set (rev ?B). ?Q x" using dropWhile_above [OF assms] by simp
  have A: "\<forall>x \<in> set (rev ?A). \<not> ?Q x"
  proof
    fix x assume "x \<in> set (rev ?A)"
    then have "fst x < k" using set_takeWhileD [of x ?P xs] by simp
    then show "\<not> ?Q x" by simp
  qed
  have r: "rev xs = rev ?B @ rev ?A" by (subst xs) (simp only: rev_append)
  have "takeWhile ?Q (rev ?B @ rev ?A) = rev ?B @ takeWhile ?Q (rev ?A)"
    by (rule takeWhile_append2) (use B in blast)
  then have "takeWhile ?Q (rev xs) = rev ?B"
    using takeWhile_none [OF A] by (simp only: r append_Nil2)
  then have "length (takeWhile ?Q (rev xs)) = length ?B" by simp
  moreover have "length xs = length (?A @ ?B)" by (simp only: takeWhile_dropWhile_id)
  then have "length xs = length ?A + length ?B" by (simp only: length_append)
  ultimately show ?thesis by (simp add: shift_pos_def lower_bound_def)
qed

lemma upsert_append_left:
  "\<forall>x \<in> set xs. fst x < k \<Longrightarrow> upsert k d (xs @ ys) = xs @ upsert k d ys"
  by (induction xs) auto

lemma upsert_append_right:
  "\<forall>x \<in> set zs. k < fst x \<Longrightarrow> upsert k d (ys @ zs) = upsert k d ys @ zs"
proof (induction ys)
  case Nil
  then show ?case by (cases zs) auto
next
  case (Cons y ys)
  then show ?case by (cases y) auto
qed

lemma concat_map_take_drop:
  "concat (map f (take n xs)) @ concat (map f (drop n xs)) = concat (map f xs)"
  by (metis append_take_drop_id concat_append map_append)

lemma nth_insert_at:
  "i \<le> length xs \<Longrightarrow>
   insert_at i x xs ! j = (if j < i then xs ! j else if j = i then x else xs ! (j - 1))"
proof -
  assume i: "i \<le> length xs"
  have "insert_at i x xs = take i xs @ x # drop i xs" by (simp add: insert_at_def)
  moreover have "length (take i xs) = i" using i by simp
  ultimately have eq: "insert_at i x xs ! j =
      (if j < i then take i xs ! j else (x # drop i xs) ! (j - i))"
    by (simp add: nth_append)
  consider "j < i" | "j = i" | "i < j" by linarith
  then show ?thesis
  proof cases
    case 1
    then show ?thesis using eq by simp
  next
    case 2
    then show ?thesis using eq by simp
  next
    case 3
    then obtain n where n: "j = Suc (i + n)" using less_imp_Suc_add by blast
    then show ?thesis using eq i by simp
  qed
qed

lemma children_insert_at:
  "i \<le> length kcs \<Longrightarrow>
   children c0 (insert_at i (k, x) kcs) =
   take (Suc i) (children c0 kcs) @ x # drop (Suc i) (children c0 kcs)"
  by (simp add: children_def insert_at_def take_map drop_map)

lemma ChildAt_insert_at:
  assumes "i \<le> length kcs" "j \<le> Suc (length kcs)"
  shows "ChildAt c0 (insert_at i (k, x) kcs) j =
         (if j \<le> i then ChildAt c0 kcs j else if j = Suc i then x else ChildAt c0 kcs (j - 1))"
proof (cases j)
  case 0
  then show ?thesis by (simp add: ChildAt_def)
next
  case (Suc j')
  then have "ChildAt c0 (insert_at i (k, x) kcs) j = snd (insert_at i (k, x) kcs ! j')"
    using assms by (simp add: ChildAt_def)
  also have "\<dots> = snd (if j' < i then kcs ! j' else if j' = i then (k, x) else kcs ! (j' - 1))"
    using assms(1) by (simp add: nth_insert_at)
  also have "\<dots> = (if j \<le> i then ChildAt c0 kcs j else if j = Suc i then x
                    else ChildAt c0 kcs (j - 1))"
    using Suc assms by (cases j') (auto simp add: ChildAt_def)
  finally show ?thesis .
qed

lemma children_take:
  "n \<le> length kcs \<Longrightarrow> children c0 (take n kcs) = take (Suc n) (children c0 kcs)"
  by (simp add: children_def take_map)

lemma children_drop:
  "n < length kcs \<Longrightarrow>
   children (ChildAt c0 kcs (Suc n)) (drop (Suc n) kcs) = drop (Suc n) (children c0 kcs)"
proof -
  assume n: "n < length kcs"
  have "drop n (map snd kcs) = snd (kcs ! n) # drop (Suc n) (map snd kcs)"
    using n Cons_nth_drop_Suc [of n "map snd kcs"] by simp
  then show ?thesis using n by (simp add: children_def ChildAt_def drop_map)
qed

lemma ChildAt_take:
  "j \<le> n \<Longrightarrow> n \<le> length kcs \<Longrightarrow> ChildAt c0 (take n kcs) j = ChildAt c0 kcs j"
  by (cases j) (auto simp add: ChildAt_def)

lemma ChildAt_drop:
  "Suc n + j \<le> length kcs \<Longrightarrow>
   ChildAt (ChildAt c0 kcs (Suc n)) (drop (Suc n) kcs) j = ChildAt c0 kcs (Suc n + j)"
  by (cases j) (auto simp add: ChildAt_def)

lemma seps_okD1:
  "seps_ok K c0 kcs \<Longrightarrow> j < length kcs \<Longrightarrow> k \<in> K (ChildAt c0 kcs j) \<Longrightarrow> k < fst (kcs ! j)"
  by (simp add: seps_ok_def)

lemma seps_okD2:
  "seps_ok K c0 kcs \<Longrightarrow> j < length kcs \<Longrightarrow> k \<in> K (ChildAt c0 kcs (Suc j)) \<Longrightarrow>
   fst (kcs ! j) \<le> k"
  by (simp add: seps_ok_def)

lemma seps_ok_replace:
  assumes ok: "seps_ok K c0 kcs" and i: "i = child_index kcs key"
    and same: "\<And>j. j \<le> length kcs \<Longrightarrow> j \<noteq> i \<Longrightarrow> K' (ChildAt c0 kcs j) = K (ChildAt c0 kcs j)"
    and inc: "K' (ChildAt c0 kcs i) \<subseteq> insert key (K (ChildAt c0 kcs i))"
  shows "seps_ok K' c0 kcs"
  unfolding seps_ok_def
proof (intro allI impI conjI ballI)
  fix j k assume j: "j < length kcs" and k: "k \<in> K' (ChildAt c0 kcs j)"
  show "k < fst (kcs ! j)"
  proof (cases "j = i")
    case True
    then have "k = key \<or> k \<in> K (ChildAt c0 kcs j)" using inc k by auto
    then show ?thesis
      using child_index_above [of kcs key] i True j seps_okD1 [OF ok j, of k] by auto
  next
    case False
    then show ?thesis using same [of j] j k seps_okD1 [OF ok j, of k] by simp
  qed
next
  fix j k assume j: "j < length kcs" and k: "k \<in> K' (ChildAt c0 kcs (Suc j))"
  show "fst (kcs ! j) \<le> k"
  proof (cases "Suc j = i")
    case True
    then have "k = key \<or> k \<in> K (ChildAt c0 kcs (Suc j))" using inc k by auto
    then show ?thesis
      using child_index_below [of j kcs key] i True seps_okD2 [OF ok j, of k] by auto
  next
    case False
    then show ?thesis using same [of "Suc j"] j k seps_okD2 [OF ok j, of k] by simp
  qed
qed

lemma seps_ok_insert:
  assumes ok: "seps_ok K c0 kcs" and i: "i = child_index kcs key"
    and same: "\<And>j. j \<le> length kcs \<Longrightarrow> j \<noteq> i \<Longrightarrow> K' (ChildAt c0 kcs j) = K (ChildAt c0 kcs j)"
    and inc: "K' (ChildAt c0 kcs i) \<union> K' nc \<subseteq> insert key (K (ChildAt c0 kcs i))"
    and lo: "\<forall>k \<in> K' (ChildAt c0 kcs i). k < sk" and hi: "\<forall>k \<in> K' nc. sk \<le> k"
  shows "seps_ok K' c0 (insert_at i (sk, nc) kcs)"
  unfolding seps_ok_def
proof (intro allI impI)
  fix j assume "j < length (insert_at i (sk, nc) kcs)"
  then have j: "j \<le> length kcs" by simp
  have il: "i \<le> length kcs" using i child_index_le [of kcs key] by simp
  have key_lt: "i < length kcs \<Longrightarrow> key < fst (kcs ! i)"
    using child_index_above [of kcs key] i by simp
  have key_ge: "\<And>j. j < i \<Longrightarrow> fst (kcs ! j) \<le> key"
    using child_index_below [of _ kcs key] i by simp
  let ?kcs = "insert_at i (sk, nc) kcs"
  consider "j < i" | "j = i" | "i < j" by linarith
  then show "(\<forall>k \<in> K' (ChildAt c0 ?kcs j). k < fst (?kcs ! j)) \<and>
             (\<forall>k \<in> K' (ChildAt c0 ?kcs (Suc j)). fst (?kcs ! j) \<le> k)"
  proof cases
    case 1
    then have jl: "j < length kcs" using il by simp
    have kj: "?kcs ! j = kcs ! j" using 1 il by (simp add: nth_insert_at)
    have cj: "ChildAt c0 ?kcs j = ChildAt c0 kcs j" using 1 il by (simp add: ChildAt_insert_at)
    have cs: "ChildAt c0 ?kcs (Suc j) = ChildAt c0 kcs (Suc j)"
      using 1 il by (simp add: ChildAt_insert_at)
    have a: "\<forall>k \<in> K' (ChildAt c0 kcs j). k < fst (kcs ! j)"
      using same [of j] seps_okD1 [OF ok jl] 1 jl by simp
    have b: "\<forall>k \<in> K' (ChildAt c0 kcs (Suc j)). fst (kcs ! j) \<le> k"
    proof (cases "Suc j = i")
      case True
      show ?thesis
      proof
        fix k assume "k \<in> K' (ChildAt c0 kcs (Suc j))"
        then have "k = key \<or> k \<in> K (ChildAt c0 kcs (Suc j))" using inc True by auto
        then show "fst (kcs ! j) \<le> k" using key_ge [of j] seps_okD2 [OF ok jl, of k] 1 by auto
      qed
    next
      case False
      then show ?thesis using same [of "Suc j"] seps_okD2 [OF ok jl] 1 jl by simp
    qed
    show ?thesis using a b by (simp add: kj cj cs)
  next
    case 2
    have kj: "?kcs ! j = (sk, nc)" using 2 il by (simp add: nth_insert_at)
    have cj: "ChildAt c0 ?kcs j = ChildAt c0 kcs i" using 2 il by (simp add: ChildAt_insert_at)
    have cs: "ChildAt c0 ?kcs (Suc j) = nc" using 2 il by (simp add: ChildAt_insert_at)
    show ?thesis using lo hi by (simp add: kj cj cs)
  next
    case 3
    then obtain j' where j': "j = Suc j'" by (cases j) auto
    have jl: "j' < length kcs" using j j' by simp
    have ij: "i \<le> j'" using 3 j' by simp
    have kj: "?kcs ! j = kcs ! j'" using 3 il j' by (simp add: nth_insert_at)
    have cs: "ChildAt c0 ?kcs (Suc j) = ChildAt c0 kcs j" using 3 il j by (simp add: ChildAt_insert_at)
    have b: "\<forall>k \<in> K' (ChildAt c0 kcs j). fst (kcs ! j') \<le> k"
      using same [of j] seps_okD2 [OF ok jl] 3 j j' by simp
    have a: "\<forall>k \<in> K' (ChildAt c0 ?kcs j). k < fst (kcs ! j')"
    proof (cases "j = Suc i")
      case True
      then have c: "ChildAt c0 ?kcs j = nc" using il j by (simp add: ChildAt_insert_at)
      have ji: "j' = i" using True j' by simp
      show ?thesis
      proof
        fix k assume "k \<in> K' (ChildAt c0 ?kcs j)"
        then have "k = key \<or> k \<in> K (ChildAt c0 kcs i)" using inc c by auto
        then show "k < fst (kcs ! j')"
          using key_lt seps_okD1 [OF ok jl, of k] jl ji by auto
      qed
    next
      case False
      then have c: "ChildAt c0 ?kcs j = ChildAt c0 kcs j'"
        using 3 il j j' by (simp add: ChildAt_insert_at)
      have "j' \<noteq> i" using False j' by simp
      then show ?thesis using same [of j'] seps_okD1 [OF ok jl] jl c by simp
    qed
    show ?thesis using a b by (simp add: kj cs)
  qed
qed

lemma seps_ok_take: "seps_ok K c0 kcs \<Longrightarrow> seps_ok K c0 (take n kcs)"
proof (cases "n \<le> length kcs")
  case True
  assume ok: "seps_ok K c0 kcs"
  show ?thesis
    unfolding seps_ok_def
  proof (intro allI impI)
    fix j assume "j < length (take n kcs)"
    then have j: "j < n" "j < length kcs" by simp_all
    have "ChildAt c0 (take n kcs) j = ChildAt c0 kcs j"
      "ChildAt c0 (take n kcs) (Suc j) = ChildAt c0 kcs (Suc j)"
      using j True by (simp_all add: ChildAt_take)
    then show "(\<forall>k \<in> K (ChildAt c0 (take n kcs) j). k < fst (take n kcs ! j)) \<and>
               (\<forall>k \<in> K (ChildAt c0 (take n kcs) (Suc j)). fst (take n kcs ! j) \<le> k)"
      using seps_okD1 [OF ok j(2)] seps_okD2 [OF ok j(2)] j by simp
  qed
next
  case False
  assume "seps_ok K c0 kcs"
  then show ?thesis using False by simp
qed

lemma seps_ok_drop:
  assumes ok: "seps_ok K c0 kcs" and n: "n < length kcs"
  shows "seps_ok K (ChildAt c0 kcs (Suc n)) (drop (Suc n) kcs)"
  unfolding seps_ok_def
proof (intro allI impI)
  fix j assume "j < length (drop (Suc n) kcs)"
  then have j: "Suc n + j < length kcs" by simp
  have "ChildAt (ChildAt c0 kcs (Suc n)) (drop (Suc n) kcs) j = ChildAt c0 kcs (Suc n + j)"
    "ChildAt (ChildAt c0 kcs (Suc n)) (drop (Suc n) kcs) (Suc j) = ChildAt c0 kcs (Suc (Suc n + j))"
    using j ChildAt_drop [of n j kcs c0] ChildAt_drop [of n "Suc j" kcs c0] by simp_all
  moreover have "drop (Suc n) kcs ! j = kcs ! (Suc n + j)" using j by simp
  ultimately show "(\<forall>k \<in> K (ChildAt (ChildAt c0 kcs (Suc n)) (drop (Suc n) kcs) j).
                      k < fst (drop (Suc n) kcs ! j)) \<and>
                   (\<forall>k \<in> K (ChildAt (ChildAt c0 kcs (Suc n)) (drop (Suc n) kcs) (Suc j)).
                      fst (drop (Suc n) kcs ! j) \<le> k)"
    using seps_okD1 [OF ok j] seps_okD2 [OF ok j] by simp
qed

lemma lower_bound_child_index:
  "\<forall>s \<in> set kcs. (fst s < sk) = (fst s \<le> key) \<Longrightarrow> lower_bound kcs sk = child_index kcs key"
proof (induction kcs)
  case Nil
  then show ?case by simp
next
  case (Cons s kcs)
  then show ?case by (cases s) auto
qed

section \<open>Properties of the tree: nodes over well-formed children\<close>

lemma sub_Suc_iff:
  "sub pg (Suc h) m p \<longleftrightarrow>
   (\<exists>c0 kcs. pg p = Internal c0 kcs \<and> m \<le> length kcs \<and> length kcs \<le> INTERNAL_MAX_KEYS \<and>
      vnode pg h c0 kcs)"
  by (cases "pg p") (auto simp add: vnode_def seps_ok_def)

lemma sub_0_iff:
  "sub pg 0 m p \<longleftrightarrow>
   (\<exists>recs nx. pg p = Leaf recs nx \<and> m \<le> length recs \<and> length recs \<le> LEAF_MAX_KEYS \<and>
      sorted_wrt (<) (map fst recs))"
  by (cases "pg p") simp_all

lemma vnode_child: "vnode pg h c0 kcs \<Longrightarrow> j \<le> length kcs \<Longrightarrow> sub pg h (minkeys h) (ChildAt c0 kcs j)"
  using ChildAt_in_children [of j kcs c0] by (simp add: vnode_def)

lemma vnode_seps: "vnode pg h c0 kcs \<Longrightarrow> seps_ok (keys_of pg h) c0 kcs"
  by (simp add: vnode_def)

lemma vseps_step:
  assumes "vnode pg h c0 kcs" "Suc j < length kcs"
  shows "fst (kcs ! j) < fst (kcs ! Suc j)"
proof -
  have "sub pg h (minkeys h) (ChildAt c0 kcs (Suc j))"
    using vnode_child [OF assms(1), of "Suc j"] assms(2) by simp
  then obtain k where k: "k \<in> keys_of pg h (ChildAt c0 kcs (Suc j))"
    using sub_keys_nonempty by blast
  have "fst (kcs ! j) \<le> k" using seps_okD2 [OF vnode_seps [OF assms(1)], of j k] assms(2) k by simp
  moreover have "k < fst (kcs ! Suc j)"
    using seps_okD1 [OF vnode_seps [OF assms(1)] assms(2) k] .
  ultimately show ?thesis by simp
qed

lemma vseps_mono:
  assumes "vnode pg h c0 kcs"
  shows "i \<le> j \<Longrightarrow> j < length kcs \<Longrightarrow> fst (kcs ! i) \<le> fst (kcs ! j)"
proof (induction j)
  case 0
  then show ?case by simp
next
  case (Suc j)
  show ?case
  proof (cases "i = Suc j")
    case True
    then show ?thesis by simp
  next
    case False
    then have "fst (kcs ! i) \<le> fst (kcs ! j)" using Suc by simp
    moreover have "fst (kcs ! j) < fst (kcs ! Suc j)"
      using vseps_step [OF assms] Suc.prems by simp
    ultimately show ?thesis by simp
  qed
qed

lemma vseps_strict:
  assumes "vnode pg h c0 kcs" "i < j" "j < length kcs"
  shows "fst (kcs ! i) < fst (kcs ! j)"
proof -
  obtain j' where j': "j = Suc j'" using assms(2) by (cases j) auto
  have "fst (kcs ! i) \<le> fst (kcs ! j')" using vseps_mono [OF assms(1), of i j'] assms j' by simp
  moreover have "fst (kcs ! j') < fst (kcs ! j)" using vseps_step [OF assms(1), of j'] assms j' by simp
  ultimately show ?thesis by simp
qed

lemma vseps_sorted: "vnode pg h c0 kcs \<Longrightarrow> sorted_wrt (<) (map fst kcs)"
  using vseps_strict [of pg h c0 kcs] by (simp add: sorted_wrt_iff_nth_less)

lemma vkeys_lt:
  assumes "vnode pg h c0 kcs" "j < length kcs" "i \<le> j" "k \<in> keys_of pg h (ChildAt c0 kcs i)"
  shows "k < fst (kcs ! j)"
proof -
  have "i < length kcs" using assms by simp
  then have "k < fst (kcs ! i)" using seps_okD1 [OF vnode_seps [OF assms(1)] _ assms(4)] by simp
  then show ?thesis using vseps_mono [OF assms(1), of i j] assms(2,3) by simp
qed

lemma vkeys_ge:
  assumes "vnode pg h c0 kcs" "j < i" "i \<le> length kcs" "k \<in> keys_of pg h (ChildAt c0 kcs i)"
  shows "fst (kcs ! j) \<le> k"
proof -
  obtain i' where i': "i = Suc i'" using assms(2) by (cases i) auto
  have "fst (kcs ! i') \<le> k"
    using seps_okD2 [OF vnode_seps [OF assms(1)], of i' k] assms i' by simp
  then show ?thesis using vseps_mono [OF assms(1), of j i'] assms(2,3) i' by simp
qed

lemma sub_vnode: "sub pg (Suc h) m p \<Longrightarrow> pg p = Internal c0 kcs \<Longrightarrow> vnode pg h c0 kcs"
  by (simp add: sub_Suc_iff del: sub.simps)

lemma vnode_agree:
  assumes "vnode pg h c0 kcs"
    and "\<forall>q \<in> set (concat (map (fp pg h) (children c0 kcs))). pg' q = pg q"
  shows "vnode pg' h c0 kcs"
    and "map (fp pg' h) (children c0 kcs) = map (fp pg h) (children c0 kcs)"
    and "map (recs_of pg' h) (children c0 kcs) = map (recs_of pg h) (children c0 kcs)"
proof -
  have ag: "\<And>c. c \<in> set (children c0 kcs) \<Longrightarrow> \<forall>q \<in> set (fp pg h c). pg' q = pg q"
    using assms(2) by auto
  show "map (fp pg' h) (children c0 kcs) = map (fp pg h) (children c0 kcs)"
    using agree_on_fp [OF ag] by simp
  show "map (recs_of pg' h) (children c0 kcs) = map (recs_of pg h) (children c0 kcs)"
    using agree_on_fp [OF ag] by simp
  have s: "\<forall>c \<in> set (children c0 kcs). sub pg' h (minkeys h) c"
    using agree_sub [OF ag] assms(1) by (simp add: vnode_def)
  have k: "\<And>j. j \<le> length kcs \<Longrightarrow>
      keys_of pg' h (ChildAt c0 kcs j) = keys_of pg h (ChildAt c0 kcs j)"
    using agree_keys_of [OF ag] ChildAt_in_children by simp
  have "seps_ok (keys_of pg' h) c0 kcs"
    using vnode_seps [OF assms(1)] k by (simp add: seps_ok_def)
  then show "vnode pg' h c0 kcs" using s by (simp add: vnode_def)
qed

lemma keys_of_node:
  "pg p = Internal c0 kcs \<Longrightarrow>
   keys_of pg (Suc h) p = (\<Union>c \<in> set (children c0 kcs). keys_of pg h c)"
  by (auto simp add: keys_of_def)

lemma vnode_fit:
  assumes "vnode pg h c0 kcs" "pg p = Internal c0 kcs" "m \<le> length kcs"
    "length kcs \<le> INTERNAL_MAX_KEYS"
  shows "sub pg (Suc h) m p"
    and "fp pg (Suc h) p = p # concat (map (fp pg h) (children c0 kcs))"
    and "recs_of pg (Suc h) p = concat (map (recs_of pg h) (children c0 kcs))"
proof -
  show "sub pg (Suc h) m p" using assms by (simp add: sub_Suc_iff del: sub.simps)
  show "fp pg (Suc h) p = p # concat (map (fp pg h) (children c0 kcs))"
    using assms(2) by simp
  show "recs_of pg (Suc h) p = concat (map (recs_of pg h) (children c0 kcs))"
    using assms(2) by simp
qed

lemma vnode_take: "vnode pg h c0 kcs \<Longrightarrow> n \<le> length kcs \<Longrightarrow> vnode pg h c0 (take n kcs)"
  using set_take_subset [of "Suc n" "children c0 kcs"]
  by (auto simp add: vnode_def seps_ok_take children_take)

lemma vnode_drop:
  "vnode pg h c0 kcs \<Longrightarrow> n < length kcs \<Longrightarrow>
   vnode pg h (ChildAt c0 kcs (Suc n)) (drop (Suc n) kcs)"
  using set_drop_subset [of "Suc n" "children c0 kcs"]
  by (auto simp add: vnode_def seps_ok_drop children_drop)

lemma vnode_split:
  assumes v: "vnode pg h c0 kcs" and mid: "mid < length kcs"
    and p: "pg p = Internal c0 (take mid kcs)"
    and np: "pg np = Internal (ChildAt c0 kcs (Suc mid)) (drop (Suc mid) kcs)"
    and b: "m \<le> mid" "mid \<le> INTERNAL_MAX_KEYS" "m \<le> length kcs - Suc mid"
      "length kcs - Suc mid \<le> INTERNAL_MAX_KEYS"
  shows "sub pg (Suc h) m p" and "sub pg (Suc h) m np"
    and "fp pg (Suc h) p = p # concat (map (fp pg h) (take (Suc mid) (children c0 kcs)))"
    and "fp pg (Suc h) np = np # concat (map (fp pg h) (drop (Suc mid) (children c0 kcs)))"
    and "recs_of pg (Suc h) p @ recs_of pg (Suc h) np =
         concat (map (recs_of pg h) (children c0 kcs))"
    and "\<forall>k \<in> keys_of pg (Suc h) p. k < fst (kcs ! mid)"
    and "\<forall>k \<in> keys_of pg (Suc h) np. fst (kcs ! mid) \<le> k"
proof -
  have ml: "mid \<le> length kcs" using mid by simp
  have vl: "vnode pg h c0 (take mid kcs)" using vnode_take [OF v ml] .
  have vr: "vnode pg h (ChildAt c0 kcs (Suc mid)) (drop (Suc mid) kcs)"
    using vnode_drop [OF v mid] .
  show "sub pg (Suc h) m p" using vl p b mid by (simp add: sub_Suc_iff del: sub.simps)
  show "sub pg (Suc h) m np" using vr np b mid by (simp add: sub_Suc_iff del: sub.simps)
  show fl: "fp pg (Suc h) p = p # concat (map (fp pg h) (take (Suc mid) (children c0 kcs)))"
    using p ml by (simp add: children_take)
  show fr: "fp pg (Suc h) np = np # concat (map (fp pg h) (drop (Suc mid) (children c0 kcs)))"
    using np mid by (simp add: children_drop)
  have "recs_of pg (Suc h) p @ recs_of pg (Suc h) np =
      concat (map (recs_of pg h) (take (Suc mid) (children c0 kcs))) @
      concat (map (recs_of pg h) (drop (Suc mid) (children c0 kcs)))"
    using p np ml mid by (simp add: children_take children_drop)
  then show "recs_of pg (Suc h) p @ recs_of pg (Suc h) np =
      concat (map (recs_of pg h) (children c0 kcs))"
    by (simp only: concat_map_take_drop)
  show "\<forall>k \<in> keys_of pg (Suc h) p. k < fst (kcs ! mid)"
  proof
    fix k assume "k \<in> keys_of pg (Suc h) p"
    then obtain c where c: "c \<in> set (take (Suc mid) (children c0 kcs))" "k \<in> keys_of pg h c"
      using keys_of_node [of pg p c0 "take mid kcs" h] p ml by (auto simp add: children_take)
    then obtain j where j: "j < Suc mid" "c = children c0 kcs ! j"
      using mid by (auto simp add: in_set_conv_nth)
    then have "c = ChildAt c0 kcs j" using mid by (simp add: children_nth)
    then show "k < fst (kcs ! mid)" using vkeys_lt [OF v mid, of j k] j c by simp
  qed
  show "\<forall>k \<in> keys_of pg (Suc h) np. fst (kcs ! mid) \<le> k"
  proof
    fix k assume "k \<in> keys_of pg (Suc h) np"
    then obtain c where c: "c \<in> set (drop (Suc mid) (children c0 kcs))" "k \<in> keys_of pg h c"
      using keys_of_node [of pg np "ChildAt c0 kcs (Suc mid)" "drop (Suc mid) kcs" h] np mid
      by (auto simp add: children_drop)
    then obtain j where j: "j < length kcs - mid" "c = children c0 kcs ! (Suc mid + j)"
      by (auto simp add: in_set_conv_nth)
    then have "c = ChildAt c0 kcs (Suc mid + j)" by (simp add: children_nth)
    then show "fst (kcs ! mid) \<le> k"
      using vkeys_ge [OF v, of mid "Suc mid + j" k] j c by simp
  qed
qed


section \<open>Properties of the tree: insertion below a node\<close>

lemma split_sorted:
  assumes "sorted_wrt (<) (map fst (xs :: (int \<times> 'a) list))" "n < length xs"
  shows "\<forall>x \<in> set (take n xs). fst x < fst (xs ! n)"
    and "\<forall>x \<in> set (drop n xs). fst (xs ! n) \<le> fst x"
    and "sorted_wrt (<) (map fst (take n xs))"
    and "sorted_wrt (<) (map fst (drop n xs))"
proof -
  have less: "\<And>i j. i < j \<Longrightarrow> j < length xs \<Longrightarrow> fst (xs ! i) < fst (xs ! j)"
    using sorted_wrt_nth_less [OF assms(1)] by simp
  show "\<forall>x \<in> set (take n xs). fst x < fst (xs ! n)"
  proof
    fix x assume "x \<in> set (take n xs)"
    then obtain j where "j < n" "x = xs ! j" using assms(2) by (auto simp add: in_set_conv_nth)
    then show "fst x < fst (xs ! n)" using less [of j n] assms(2) by simp
  qed
  show "\<forall>x \<in> set (drop n xs). fst (xs ! n) \<le> fst x"
  proof
    fix x assume "x \<in> set (drop n xs)"
    then obtain j where j: "j < length xs - n" "x = xs ! (n + j)"
      by (auto simp add: in_set_conv_nth)
    show "fst (xs ! n) \<le> fst x"
    proof (cases j)
      case 0
      then show ?thesis using j by simp
    next
      case (Suc j')
      then have "n < n + j" "n + j < length xs" using j by simp_all
      then have "fst (xs ! n) < fst (xs ! (n + j))" by (rule less)
      then show ?thesis using j by simp
    qed
  qed
  show "sorted_wrt (<) (map fst (take n xs))"
    using sorted_wrt_take [OF assms(1), of n] by (simp add: take_map)
  show "sorted_wrt (<) (map fst (drop n xs))"
    using sorted_wrt_drop [OF assms(1), of n] by (simp add: drop_map)
qed

lemma node_update:
  assumes v: "vnode pg h c0 kcs"
    and d: "distinct (concat (map (fp pg h) (children c0 kcs)))"
    and i: "i = child_index kcs key" and c: "c = ChildAt c0 kcs i"
    and frame: "\<forall>q \<in> set (concat (map (fp pg h) (children c0 kcs))) - set (fp pg h c).
                  pg1 q = pg q"
    and N: "distinct (concat (map (fp pg1 h) (outs c r)))"
    and D: "set (concat (map (fp pg1 h) (outs c r))) \<inter>
            (set (concat (map (fp pg h) (children c0 kcs))) - set (fp pg h c)) = {}"
    and R: "concat (map (recs_of pg1 h) (outs c r)) = upsert key dat (recs_of pg h c)"
    and S: "\<forall>x \<in> set (outs c r). sub pg1 h (minkeys h) x"
    and sep: "case r of None \<Rightarrow> True
              | Some (sk, nc) \<Rightarrow> (\<forall>k \<in> keys_of pg1 h c. k < sk) \<and>
                                 (\<forall>k \<in> keys_of pg1 h nc. sk \<le> k)"
    and kcs': "kcs' = (case r of None \<Rightarrow> kcs | Some (sk, nc) \<Rightarrow> insert_at i (sk, nc) kcs)"
  shows "vnode pg1 h c0 kcs'"
    and "concat (map (recs_of pg1 h) (children c0 kcs')) =
         upsert key dat (concat (map (recs_of pg h) (children c0 kcs)))"
    and "distinct (concat (map (fp pg1 h) (children c0 kcs')))"
    and "set (concat (map (fp pg1 h) (children c0 kcs'))) =
         (set (concat (map (fp pg h) (children c0 kcs))) - set (fp pg h c)) \<union>
         set (concat (map (fp pg1 h) (outs c r)))"
proof -
  define L where "L = take i (children c0 kcs)"
  define Rt where "Rt = drop (Suc i) (children c0 kcs)"
  define FL where "FL = concat (map (fp pg h) L)"
  define FR where "FR = concat (map (fp pg h) Rt)"
  define NN where "NN = concat (map (fp pg1 h) (outs c r))"
  have il: "i \<le> length kcs" using i child_index_le [of kcs key] by simp
  have ci: "children c0 kcs ! i = c" using c il by (simp add: children_nth)
  have cs: "children c0 kcs = L @ c # Rt"
    unfolding L_def Rt_def ci [symmetric] by (rule id_take_nth_drop) (use il in simp)
  have lenL: "length L = i" using il by (simp add: L_def)
  have lenR: "length Rt = length kcs - i" by (simp add: Rt_def)
  have allfp: "concat (map (fp pg h) (children c0 kcs)) = FL @ fp pg h c @ FR"
    by (simp add: cs FL_def FR_def)
  have dd: "distinct FL" "distinct FR" "set FL \<inter> set FR = {}"
    "set FL \<inter> set (fp pg h c) = {}" "set (fp pg h c) \<inter> set FR = {}"
    using d unfolding allfp by auto
  have rest: "set (concat (map (fp pg h) (children c0 kcs))) - set (fp pg h c) = set FL \<union> set FR"
    unfolding allfp using dd by auto
  have ag: "\<And>x. x \<in> set L \<union> set Rt \<Longrightarrow> \<forall>q \<in> set (fp pg h x). pg1 q = pg q"
  proof
    fix x q assume "x \<in> set L \<union> set Rt" "q \<in> set (fp pg h x)"
    then have "q \<in> set FL \<union> set FR" by (auto simp add: FL_def FR_def)
    then show "pg1 q = pg q" using frame rest by blast
  qed
  have same_fp: "map (fp pg1 h) L = map (fp pg h) L" "map (fp pg1 h) Rt = map (fp pg h) Rt"
    using agree_on_fp [OF ag] by simp_all
  have same_recs: "map (recs_of pg1 h) L = map (recs_of pg h) L"
    "map (recs_of pg1 h) Rt = map (recs_of pg h) Rt"
    using agree_on_fp [OF ag] by simp_all
  have mem: "ChildAt c0 kcs j \<in> set L \<union> set Rt" if jl: "j \<le> length kcs" and ji: "j \<noteq> i" for j
  proof -
    have e: "ChildAt c0 kcs j = (L @ c # Rt) ! j"
      using children_nth [of j kcs c0] jl by (simp only: cs)
    consider "j < i" | "i < j" using ji by linarith
    then show ?thesis
    proof cases
      case 1
      then show ?thesis using e lenL by (simp add: nth_append)
    next
      case 2
      then obtain n where n: "j = Suc (i + n)" using less_imp_Suc_add by blast
      then have "n < length Rt" using jl lenR by simp
      then show ?thesis using e lenL n by (simp add: nth_append)
    qed
  qed
  have newcs: "children c0 kcs' = L @ outs c r @ Rt"
  proof (cases r)
    case None
    then show ?thesis using kcs' cs by (simp add: outs_def)
  next
    case (Some a)
    obtain sk nc where a: "a = (sk, nc)" by (cases a)
    have "children c0 kcs' =
        take (Suc i) (children c0 kcs) @ nc # drop (Suc i) (children c0 kcs)"
      using kcs' Some a il by (simp add: children_insert_at)
    moreover have "take (Suc i) (children c0 kcs) = L @ [c]"
      unfolding cs using lenL by simp
    moreover have "drop (Suc i) (children c0 kcs) = Rt" by (simp add: Rt_def)
    ultimately show ?thesis by (simp add: outs_def Some a)
  qed
  have newfp: "concat (map (fp pg1 h) (children c0 kcs')) = FL @ NN @ FR"
    by (simp add: newcs same_fp FL_def FR_def NN_def)
  have ND: "set NN \<inter> (set FL \<union> set FR) = {}" using D rest by (simp add: NN_def)
  show "distinct (concat (map (fp pg1 h) (children c0 kcs')))"
    unfolding newfp using dd N ND by (auto simp add: NN_def)
  show "set (concat (map (fp pg1 h) (children c0 kcs'))) =
      (set (concat (map (fp pg h) (children c0 kcs))) - set (fp pg h c)) \<union>
      set (concat (map (fp pg1 h) (outs c r)))"
    unfolding newfp rest by (auto simp add: NN_def)
  have left_lt: "\<forall>x \<in> set (concat (map (recs_of pg h) L)). fst x < key"
  proof
    fix x assume "x \<in> set (concat (map (recs_of pg h) L))"
    then obtain y where y: "y \<in> set L" "x \<in> set (recs_of pg h y)" by auto
    then obtain j where j: "j < i" "y = L ! j" using lenL by (auto simp add: in_set_conv_nth)
    have "y = (L @ c # Rt) ! j" using j lenL by (simp add: nth_append)
    then have "y = ChildAt c0 kcs j" using children_nth [of j kcs c0] j il by (simp only: cs)
    then have "fst x \<in> keys_of pg h (ChildAt c0 kcs j)" using y by (simp add: keys_of_def)
    then have "fst x < fst (kcs ! j)"
      using seps_okD1 [OF vnode_seps [OF v], of j "fst x"] j il by simp
    then show "fst x < key" using child_index_below [of j kcs key] j i by simp
  qed
  have right_gt: "\<forall>x \<in> set (concat (map (recs_of pg h) Rt)). key < fst x"
  proof
    fix x assume "x \<in> set (concat (map (recs_of pg h) Rt))"
    then obtain y where y: "y \<in> set Rt" "x \<in> set (recs_of pg h y)" by auto
    then obtain n where n: "n < length Rt" "y = Rt ! n" by (auto simp add: in_set_conv_nth)
    have "y = (L @ c # Rt) ! (Suc (i + n))" using n lenL by (simp add: nth_append)
    then have "y = ChildAt c0 kcs (Suc (i + n))"
      using children_nth [of "Suc (i + n)" kcs c0] n lenR by (simp only: cs)
    then have "fst x \<in> keys_of pg h (ChildAt c0 kcs (Suc (i + n)))"
      using y by (simp add: keys_of_def)
    then have "fst (kcs ! i) \<le> fst x"
      using vkeys_ge [OF v, of i "Suc (i + n)" "fst x"] n lenR by simp
    moreover have "key < fst (kcs ! i)"
      using child_index_above [of kcs key] i n lenR by simp
    ultimately show "key < fst x" by simp
  qed
  have "concat (map (recs_of pg1 h) (children c0 kcs')) =
      concat (map (recs_of pg h) L) @ upsert key dat (recs_of pg h c) @
      concat (map (recs_of pg h) Rt)"
    using R by (simp add: newcs same_recs)
  also have "\<dots> = upsert key dat (concat (map (recs_of pg h) L) @ recs_of pg h c @
      concat (map (recs_of pg h) Rt))"
    using upsert_append_left [OF left_lt, of dat] upsert_append_right [OF right_gt, of dat]
    by simp
  also have "concat (map (recs_of pg h) L) @ recs_of pg h c @ concat (map (recs_of pg h) Rt) =
      concat (map (recs_of pg h) (children c0 kcs))"
    by (simp add: cs)
  finally show "concat (map (recs_of pg1 h) (children c0 kcs')) =
      upsert key dat (concat (map (recs_of pg h) (children c0 kcs)))" .
  have ch: "\<forall>x \<in> set (children c0 kcs'). sub pg1 h (minkeys h) x"
  proof
    fix x assume "x \<in> set (children c0 kcs')"
    then consider "x \<in> set L \<union> set Rt" | "x \<in> set (outs c r)" using newcs by auto
    then show "sub pg1 h (minkeys h) x"
    proof cases
      case 1
      moreover have "x \<in> set (children c0 kcs)" using 1 cs by auto
      ultimately show ?thesis using agree_sub [OF ag, of x] v by (simp add: vnode_def)
    next
      case 2
      then show ?thesis using S by simp
    qed
  qed
  have same: "\<And>j. j \<le> length kcs \<Longrightarrow> j \<noteq> i \<Longrightarrow>
      keys_of pg1 h (ChildAt c0 kcs j) = keys_of pg h (ChildAt c0 kcs j)"
    using agree_keys_of [OF ag] mem by simp
  have "seps_ok (keys_of pg1 h) c0 kcs'"
  proof (cases r)
    case None
    have "recs_of pg1 h c = upsert key dat (recs_of pg h c)"
      using R None by (simp add: outs_def)
    then have "keys_of pg1 h (ChildAt c0 kcs i) \<subseteq> insert key (keys_of pg h (ChildAt c0 kcs i))"
      using keys_upsert [of key dat "recs_of pg h c"] c by (simp add: keys_of_def)
    then show ?thesis
      using seps_ok_replace [OF vnode_seps [OF v] i same] kcs' None by simp
  next
    case (Some a)
    obtain sk nc where a: "a = (sk, nc)" by (cases a)
    have "recs_of pg1 h c @ recs_of pg1 h nc = upsert key dat (recs_of pg h c)"
      using R Some a by (simp add: outs_def)
    then have "set (recs_of pg1 h c) \<union> set (recs_of pg1 h nc) =
        set (upsert key dat (recs_of pg h c))"
      using set_append [of "recs_of pg1 h c" "recs_of pg1 h nc"] by simp
    then have "keys_of pg1 h c \<union> keys_of pg1 h nc = insert key (keys_of pg h c)"
      using keys_upsert [of key dat "recs_of pg h c"] by (simp add: keys_of_def image_Un [symmetric])
    then have inc: "keys_of pg1 h (ChildAt c0 kcs i) \<union> keys_of pg1 h nc \<subseteq>
        insert key (keys_of pg h (ChildAt c0 kcs i))"
      using c by simp
    have lo: "\<forall>k \<in> keys_of pg1 h (ChildAt c0 kcs i). k < sk"
      and hi: "\<forall>k \<in> keys_of pg1 h nc. sk \<le> k"
      using sep Some a c by simp_all
    show ?thesis
      using seps_ok_insert [OF vnode_seps [OF v] i same inc lo hi] kcs' Some a by simp
  qed
  then show "vnode pg1 h c0 kcs'" using ch by (simp add: vnode_def)
qed

lemma sep_position:
  assumes v: "vnode pg h c0 kcs" and i: "i = child_index kcs key"
    and inc: "A \<union> B \<subseteq> insert key (keys_of pg h (ChildAt c0 kcs i))"
    and ne: "A \<noteq> {}" "B \<noteq> {}"
    and lo: "\<forall>k \<in> A. k < sk" and hi: "\<forall>k \<in> B. sk \<le> k"
  shows "lower_bound kcs sk = i" and "shift_pos kcs sk = i"
proof -
  have il: "i \<le> length kcs" using i child_index_le [of kcs key] by simp
  obtain a where a: "a \<in> A" using ne by blast
  obtain b where b: "b \<in> B" using ne by blast
  have below: "fst (kcs ! j) < sk" if "j < i" for j
  proof -
    have "a = key \<or> a \<in> keys_of pg h (ChildAt c0 kcs i)" using a inc by auto
    then have "fst (kcs ! j) \<le> a"
      using child_index_below [of j kcs key] vkeys_ge [OF v that il, of a] that i by auto
    then show ?thesis using lo a by force
  qed
  have above: "sk < fst (kcs ! j)" if "i \<le> j" "j < length kcs" for j
  proof -
    have "b = key \<or> b \<in> keys_of pg h (ChildAt c0 kcs i)" using b inc by auto
    moreover have "key < fst (kcs ! i)" using child_index_above [of kcs key] i that by simp
    moreover have "fst (kcs ! i) \<le> fst (kcs ! j)" using vseps_mono [OF v that] .
    ultimately have "b < fst (kcs ! j)"
      using vkeys_lt [OF v that(2,1), of b] by auto
    then show ?thesis using hi b by force
  qed
  have key_lt: "key < fst (kcs ! j)" if "i \<le> j" "j < length kcs" for j
  proof -
    have "key < fst (kcs ! i)" using child_index_above [of kcs key] i that by simp
    then show ?thesis using vseps_mono [OF v that] by simp
  qed
  have iff: "\<forall>s \<in> set kcs. (fst s < sk) = (fst s \<le> key)"
  proof
    fix s assume "s \<in> set kcs"
    then obtain j where j: "j < length kcs" "s = kcs ! j" by (auto simp add: in_set_conv_nth)
    show "(fst s < sk) = (fst s \<le> key)"
    proof (cases "j < i")
      case True
      then show ?thesis using below [of j] child_index_below [of j kcs key] i j by simp
    next
      case False
      then show ?thesis using above [of j] key_lt [of j] j by simp
    qed
  qed
  show lb: "lower_bound kcs sk = i" using lower_bound_child_index [OF iff] i by simp
  have "sk \<notin> fst ` set kcs"
  proof
    assume "sk \<in> fst ` set kcs"
    then obtain j where j: "j < length kcs" "fst (kcs ! j) = sk"
      by (auto simp add: in_set_conv_nth)
    show False using below [of j] above [of j] j by (cases "j < i") simp_all
  qed
  then show "shift_pos kcs sk = i"
    using shift_pos_lower_bound [OF vseps_sorted [OF v]] lb by simp
qed

section \<open>Properties of the tree: the insert helpers on the store\<close>

lemma alloc_ok_write: "alloc_ok t fl \<Longrightarrow> q \<notin> set fl \<Longrightarrow> alloc_ok (UnpinPage t q x) fl"
proof -
  assume a: "alloc_ok t fl" and q: "q \<notin> set fl"
  have "chain ((pages t)(q := x)) (disk_free t) fl = chain (pages t) (disk_free t) fl"
    using q by (intro chain_agree) auto
  then show ?thesis using a by (simp add: alloc_ok_def UnpinPage_def)
qed

lemma UnpinPage_fields [simp]:
  "pages (UnpinPage t q x) = (pages t)(q := x)"
  "disk_size (UnpinPage t q x) = disk_size t"
  "disk_next (UnpinPage t q x) = disk_next t"
  "disk_free (UnpinPage t q x) = disk_free t"
  "root_offset (UnpinPage t q x) = root_offset t"
  "next_page_offset (UnpinPage t q x) = next_page_offset t"
  by (simp_all add: UnpinPage_def)

lemma PinPage_in:
  "PAGE_SIZE \<le> q \<Longrightarrow> q + PAGE_SIZE \<le> disk_size t \<Longrightarrow> \<forall>l. pages t q \<noteq> Freed l \<Longrightarrow>
   PinPage t q = Inr (pages t q)"
  by (simp add: PinPage_def PAGE_SIZE_def split: page.splits)

lemma InsertIntoLeaf_fit:
  assumes "PinPage t p = Inr (Leaf recs nx)" "sorted_wrt (<) (map fst recs)"
    "length (upsert key dat recs) \<le> LEAF_MAX_KEYS"
  shows "InsertIntoLeaf t p key dat = Inr (UnpinPage t p (Leaf (upsert key dat recs) nx), None)"
proof (cases "find_record recs key")
  case None
  then have k: "key \<notin> fst ` set recs" using find_record_None_iff [of recs key] by simp
  then have "length recs < LEAF_MAX_KEYS" using assms(2,3) by (simp add: length_upsert)
  moreover have "insert_at (shift_pos recs key) (key, dat) recs = upsert key dat recs"
    using shift_pos_lower_bound [OF assms(2) k] insert_at_upsert [OF k] by simp
  ultimately show ?thesis using assms(1) None by (simp add: InsertIntoLeaf_def)
next
  case (Some d)
  then have "set_data recs key dat = upsert key dat recs"
    using set_data_upsert [OF assms(2), of key dat] by simp
  then show ?thesis using assms(1) Some by (simp add: InsertIntoLeaf_def)
qed

lemma InsertIntoLeaf_split:
  assumes "PinPage t p = Inr (Leaf recs nx)" "sorted_wrt (<) (map fst recs)"
    "length recs \<le> LEAF_MAX_KEYS" "LEAF_MAX_KEYS < length (upsert key dat recs)"
    "AllocPage t = Inr (np, t1)" "np \<noteq> p" "PAGE_SIZE \<le> np" "np + PAGE_SIZE \<le> disk_size t1"
  shows "InsertIntoLeaf t p key dat =
         Inr (UnpinPage (UnpinPage t1 np (Leaf (drop 18 (upsert key dat recs)) nx)) p
                (Leaf (take 18 (upsert key dat recs)) np),
              Some (fst (upsert key dat recs ! 18), np))"
    and "length (upsert key dat recs) = 36"
proof -
  have k: "key \<notin> fst ` set recs"
    using assms(2,3,4) by (auto simp add: length_upsert split: if_splits)
  then have f: "find_record recs key = None" using find_record_None_iff [of recs key] by simp
  have len: "length recs = LEAF_MAX_KEYS" using assms(2,3,4) k by (simp add: length_upsert)
  show l36: "length (upsert key dat recs) = 36"
    using assms(2) k len by (simp add: length_upsert LEAF_MAX_KEYS_def)
  have u: "insert_at (lower_bound recs key) (key, dat) recs = upsert key dat recs"
    using insert_at_upsert [OF k] .
  let ?t3 = "UnpinPage (UnpinPage t1 np (Leaf (drop 18 (upsert key dat recs)) nx)) p
                (Leaf (take 18 (upsert key dat recs)) np)"
  have "PinPage ?t3 np = Inr (Leaf (drop 18 (upsert key dat recs)) nx)"
    using assms(6,7,8) PinPage_in [of np ?t3] by simp
  moreover have "KeyAt (drop 18 (upsert key dat recs)) 0 = fst (upsert key dat recs ! 18)"
    using l36 by (simp add: KeyAt_def)
  moreover have "(length (upsert key dat recs) + 1) div 2 = 18" using l36 by simp
  ultimately show "InsertIntoLeaf t p key dat = Inr (?t3, Some (fst (upsert key dat recs ! 18), np))"
    using assms(1,5) f len u by (simp add: InsertIntoLeaf_def Let_def)
qed

lemma InsertIntoInternal_fit:
  assumes "PinPage t p = Inr (Internal c0 kcs)" "length kcs < INTERNAL_MAX_KEYS"
    "shift_pos kcs sk = i"
  shows "InsertIntoInternal t p sk nc =
         Inr (UnpinPage t p (Internal c0 (insert_at i (sk, nc) kcs)), None)"
  using assms by (simp add: InsertIntoInternal_def)

lemma InsertIntoInternal_split:
  assumes "PinPage t p = Inr (Internal c0 kcs)" "length kcs = INTERNAL_MAX_KEYS"
    "lower_bound kcs sk = i" "AllocPage t = Inr (np, t1)" "np \<noteq> p"
    "PAGE_SIZE \<le> p" "p + PAGE_SIZE \<le> disk_size t1" "\<forall>l. pages t1 p \<noteq> Freed l"
    "kcs' = insert_at i (sk, nc) kcs"
  shows "InsertIntoInternal t p sk nc =
         Inr (UnpinPage (UnpinPage t1 np (Internal (ChildAt c0 kcs' (Suc 50))
                  (drop (Suc 50) kcs'))) p (Internal c0 (take 50 kcs')),
              Some (fst (kcs' ! 50), np))"
proof -
  have len100: "length kcs = 100" using assms(2) by (simp add: INTERNAL_MAX_KEYS_def)
  have len: "length kcs' = 101" using len100 assms(9) by simp
  let ?t2 = "UnpinPage t1 np (Internal (ChildAt c0 kcs' 51) (drop 51 kcs'))"
  have "PinPage ?t2 p = Inr (pages ?t2 p)"
    using assms(5,6,7,8) by (intro PinPage_in) simp_all
  then have pin: "PinPage ?t2 p = Inr (pages t1 p)" using assms(5) by simp
  have key: "KeyAt kcs' 50 = fst (kcs' ! 50)" using len by (simp add: KeyAt_def)
  show ?thesis
    using assms(1,4) pin key
    by (simp add: InsertIntoInternal_def Let_def assms(3) assms(9) [symmetric] len len100
        INTERNAL_MAX_KEYS_def)
qed


section \<open>Properties of the tree: InsertRecursive\<close>

lemma PAGE_SIZE_pos: "0 < PAGE_SIZE"
  by (simp add: PAGE_SIZE_def)

lemma distinct_concat_elem: "distinct (concat (map f xs)) \<Longrightarrow> x \<in> set xs \<Longrightarrow> distinct (f x)"
  by (induction xs) auto

lemma ins_postI_None:
  assumes "alloc_ok t' fl'" "set fl' \<subseteq> set fl" "disk_next t \<le> disk_next t'"
    "root_offset t' = root_offset t"
    "\<And>q. q \<notin> set (fp (pages t) h p) \<Longrightarrow> q \<notin> set fl \<Longrightarrow> q < disk_next t \<Longrightarrow>
          pages t' q = pages t q"
    "fp (pages t') h p = NN" "distinct NN"
    "set NN \<subseteq> set (fp (pages t) h p) \<union> set fl \<union> {q. disk_next t \<le> q}"
    "set NN \<inter> set fl' = {}"
    "\<And>q. q \<in> set NN \<Longrightarrow> PAGE_SIZE \<le> q \<and> q + PAGE_SIZE \<le> disk_next t'"
    "recs_of (pages t') h p = upsert key dat (recs_of (pages t) h p)"
    "sub (pages t') h m p"
  shows "ins_post t fl h m p key dat t' None fl'"
  unfolding ins_post_def outs_def option.case
  using assms by (intro conjI) auto

lemma ins_postI_Some:
  assumes "alloc_ok t' fl'" "set fl' \<subseteq> set fl" "disk_next t \<le> disk_next t'"
    "root_offset t' = root_offset t"
    "\<And>q. q \<notin> set (fp (pages t) h p) \<Longrightarrow> q \<notin> set fl \<Longrightarrow> q < disk_next t \<Longrightarrow>
          pages t' q = pages t q"
    "fp (pages t') h p @ fp (pages t') h np = NN" "distinct NN"
    "set NN \<subseteq> set (fp (pages t) h p) \<union> set fl \<union> {q. disk_next t \<le> q}"
    "set NN \<inter> set fl' = {}"
    "\<And>q. q \<in> set NN \<Longrightarrow> PAGE_SIZE \<le> q \<and> q + PAGE_SIZE \<le> disk_next t'"
    "recs_of (pages t') h p @ recs_of (pages t') h np = upsert key dat (recs_of (pages t) h p)"
    "sub (pages t') h (minkeys h) p" "sub (pages t') h (minkeys h) np"
    "\<And>k. k \<in> keys_of (pages t') h p \<Longrightarrow> k < sk"
    "\<And>k. k \<in> keys_of (pages t') h np \<Longrightarrow> sk \<le> k"
  shows "ins_post t fl h m p key dat t' (Some (sk, np)) fl'"
proof -
  have e: "concat (map (fp (pages t') h) [p, np]) = NN"
    "concat (map (recs_of (pages t') h) [p, np]) = upsert key dat (recs_of (pages t) h p)"
    using assms(6,11) by simp_all
  show ?thesis
    unfolding ins_post_def outs_def option.case prod.case e
    using assms(1-5,7-10,12-15) by (intro conjI) auto
qed

lemma insert_leaf_post:
  assumes s: "sub (pages t) 0 m p" and o: "owned t fl 0 p"
  shows "\<exists>t' r fl'. InsertIntoLeaf t p key dat = Inr (t', r) \<and>
           ins_post t fl 0 m p key dat t' r fl'"
proof -
  obtain recs nx where pg: "pages t p = Leaf recs nx"
    and len: "m \<le> length recs" "length recs \<le> LEAF_MAX_KEYS"
    and srt: "sorted_wrt (<) (map fst recs)"
    using s unfolding sub_0_iff by blast
  have a: "alloc_ok t fl" and pf: "p \<notin> set fl"
    and pb: "PAGE_SIZE \<le> p" "p + PAGE_SIZE \<le> disk_next t"
    using o by (simp_all add: owned_def)
  have ds: "disk_next t \<le> disk_size t" using a by (simp add: alloc_ok_def)
  have pin: "PinPage t p = Inr (Leaf recs nx)" using PinPage_in [of p t] pb ds pg by simp
  let ?u = "upsert key dat recs"
  have su: "sorted_wrt (<) (map fst ?u)" using sorted_upsert [OF srt] .
  have lu: "length recs \<le> length ?u" using length_upsert [OF srt, of key dat] by simp
  have fp0: "fp (pages t) 0 p = [p]" by simp
  have r0: "recs_of (pages t) 0 p = recs" using pg by simp
  show ?thesis
  proof (cases "length ?u \<le> LEAF_MAX_KEYS")
    case True
    let ?t' = "UnpinPage t p (Leaf ?u nx)"
    have r: "InsertIntoLeaf t p key dat = Inr (?t', None)"
      using InsertIntoLeaf_fit [OF pin srt True] .
    have "ins_post t fl 0 m p key dat ?t' None fl"
    proof (rule ins_postI_None [where NN = "[p]"])
      show "alloc_ok ?t' fl" using alloc_ok_write [OF a pf] .
      show "sub (pages ?t') 0 m p" using len lu su True by simp
    qed (use pf pb r0 in simp_all)
    then show ?thesis using r by blast
  next
    case False
    obtain np t1 fl1 where al: "AllocPage t = Inr (np, t1)" "alloc_ok t1 fl1"
      "pages t1 = (pages t)(np := zero_page)" "np \<notin> set fl1" "PAGE_SIZE \<le> np"
      "np + PAGE_SIZE \<le> disk_next t1" "np \<in> set fl \<or> disk_next t \<le> np"
      "set fl1 \<subseteq> set fl" "disk_next t \<le> disk_next t1" "root_offset t1 = root_offset t"
      using AllocPage_ok [OF a] by blast
    have np: "np \<noteq> p" using al(7) pf pb PAGE_SIZE_pos by auto
    have ds1: "disk_next t1 \<le> disk_size t1" using al(2) by (simp add: alloc_ok_def)
    let ?t' = "UnpinPage (UnpinPage t1 np (Leaf (drop 18 ?u) nx)) p (Leaf (take 18 ?u) np)"
    let ?sk = "fst (?u ! 18)"
    have big: "LEAF_MAX_KEYS < length ?u" using False by simp
    have nb: "np + PAGE_SIZE \<le> disk_size t1" using al(6) ds1 by simp
    have r: "InsertIntoLeaf t p key dat = Inr (?t', Some (?sk, np))"
      using InsertIntoLeaf_split(1) [OF pin srt len(2) big al(1) np al(5) nb] .
    have l36: "length ?u = 36"
      using InsertIntoLeaf_split(2) [OF pin srt len(2) big al(1) np al(5) nb] .
    have pf1: "p \<notin> set fl1" using pf al(8) by auto
    have n18: "18 < length ?u" using l36 by simp
    note sp = split_sorted [OF su n18]
    have pgp: "pages ?t' p = Leaf (take 18 ?u) np"
      and pgn: "pages ?t' np = Leaf (drop 18 ?u) nx"
      using np by simp_all
    have "ins_post t fl 0 m p key dat ?t' (Some (?sk, np)) fl1"
    proof (rule ins_postI_Some [where NN = "[p, np]"])
      show "alloc_ok ?t' fl1"
        using alloc_ok_write [OF alloc_ok_write [OF al(2) al(4)] pf1] .
      show "set fl1 \<subseteq> set fl" using al(8) .
      show "disk_next t \<le> disk_next ?t'" using al(9) by simp
      show "root_offset ?t' = root_offset t" using al(10) by simp
      show "pages ?t' q = pages t q"
        if "q \<notin> set (fp (pages t) 0 p)" "q \<notin> set fl" "q < disk_next t" for q
        using that al(3,7) by auto
      show "fp (pages ?t') 0 p @ fp (pages ?t') 0 np = [p, np]" by simp
      show "distinct [p, np]" using np by simp
      show "set [p, np] \<subseteq> set (fp (pages t) 0 p) \<union> set fl \<union> {q. disk_next t \<le> q}"
        using al(7) by auto
      show "set [p, np] \<inter> set fl1 = {}" using pf1 al(4) by simp
      show "PAGE_SIZE \<le> q \<and> q + PAGE_SIZE \<le> disk_next ?t'" if "q \<in> set [p, np]" for q
        using that pb al(5,6,9) by auto
      show "recs_of (pages ?t') 0 p @ recs_of (pages ?t') 0 np =
          upsert key dat (recs_of (pages t) 0 p)"
        using np r0 by simp
      show "sub (pages ?t') 0 (minkeys 0) p"
        using sp(3) l36 np
        by (simp add: minkeys_def LEAF_MIN_KEYS_def LEAF_MAX_KEYS_def)
      show "sub (pages ?t') 0 (minkeys 0) np"
        using sp(4) l36 np
        by (simp add: minkeys_def LEAF_MIN_KEYS_def LEAF_MAX_KEYS_def)
      show "k < ?sk" if "k \<in> keys_of (pages ?t') 0 p" for k
        using that sp(1) np by (auto simp add: keys_of_def)
      show "?sk \<le> k" if "k \<in> keys_of (pages ?t') 0 np" for k
        using that sp(2) np by (auto simp add: keys_of_def)
    qed
    then show ?thesis using r by blast
  qed
qed

lemma InsertRecursive_ok:
  "sub (pages t) h m p \<Longrightarrow> owned t fl h p \<Longrightarrow> h < fuel \<Longrightarrow>
   \<exists>t' r fl'. InsertRecursive fuel t p key dat = Inr (t', r) \<and>
     ins_post t fl h m p key dat t' r fl'"
proof (induction h arbitrary: m p fuel)
  case 0
  obtain f where f: "fuel = Suc f" using 0(3) by (cases fuel) auto
  obtain recs nx where pg: "pages t p = Leaf recs nx"
    using 0(1) unfolding sub_0_iff by blast
  have "PAGE_SIZE \<le> p" "p + PAGE_SIZE \<le> disk_next t" "disk_next t \<le> disk_size t"
    using 0(2) by (simp_all add: owned_def alloc_ok_def)
  then have pin: "PinPage t p = Inr (Leaf recs nx)" using PinPage_in [of p t] pg by simp
  have "InsertRecursive fuel t p key dat = InsertIntoLeaf t p key dat" using f pin by simp
  then show ?case using insert_leaf_post [OF 0(1,2), of key dat] by simp
next
  case (Suc h)
  obtain f where f: "fuel = Suc f" "h < f" using Suc.prems(3) by (cases fuel) auto
  obtain c0 kcs where pg: "pages t p = Internal c0 kcs"
    and ml: "m \<le> length kcs" and lk: "length kcs \<le> INTERNAL_MAX_KEYS"
    and v: "vnode (pages t) h c0 kcs"
    using Suc.prems(1) unfolding sub_Suc_iff by blast
  have a: "alloc_ok t fl" and dist: "distinct (fp (pages t) (Suc h) p)"
    and disj: "set (fp (pages t) (Suc h) p) \<inter> set fl = {}"
    and bnd: "\<And>q. q \<in> set (fp (pages t) (Suc h) p) \<Longrightarrow>
                PAGE_SIZE \<le> q \<and> q + PAGE_SIZE \<le> disk_next t"
    using Suc.prems(2) unfolding owned_def by blast+
  let ?F = "concat (map (fp (pages t) h) (children c0 kcs))"
  have fpp: "fp (pages t) (Suc h) p = p # ?F" using pg by simp
  have recp: "recs_of (pages t) (Suc h) p = concat (map (recs_of (pages t) h) (children c0 kcs))"
    using pg by simp
  define i where "i = child_index kcs key"
  define c where "c = ChildAt c0 kcs i"
  have il: "i \<le> length kcs" using child_index_le [of kcs key] by (simp add: i_def)
  have cin: "c \<in> set (children c0 kcs)" using ChildAt_in_children [OF il] by (simp add: c_def)
  have csub: "sub (pages t) h (minkeys h) c" using vnode_child [OF v il] by (simp add: c_def)
  have cF: "set (fp (pages t) h c) \<subseteq> set ?F" using cin by auto
  have dF: "distinct ?F" and pF: "p \<notin> set ?F" using dist unfolding fpp by simp_all
  have Ffl: "set ?F \<inter> set fl = {}" and pfl: "p \<notin> set fl" using disj unfolding fpp by auto
  have Fb: "\<And>q. q \<in> set ?F \<Longrightarrow> PAGE_SIZE \<le> q \<and> q + PAGE_SIZE \<le> disk_next t"
    and pb: "PAGE_SIZE \<le> p" "p + PAGE_SIZE \<le> disk_next t"
    using bnd unfolding fpp by simp_all
  have Flt: "\<And>q. q \<in> set ?F \<Longrightarrow> q < disk_next t" using Fb PAGE_SIZE_pos by force
  have plt: "p < disk_next t" using pb PAGE_SIZE_pos by simp
  have dc: "distinct (fp (pages t) h c)" using distinct_concat_elem [OF dF cin] .
  have cown: "owned t fl h c" unfolding owned_def using a dc cF Ffl Fb by blast
  obtain t1 r1 fl1 where rec: "InsertRecursive f t c key dat = Inr (t1, r1)"
    and post: "ins_post t fl h (minkeys h) c key dat t1 r1 fl1"
    using Suc.IH [OF csub cown f(2)] by blast
  let ?NN = "concat (map (fp (pages t1) h) (outs c r1))"
  have a1: "alloc_ok t1 fl1" and fl1: "set fl1 \<subseteq> set fl"
    and dn1: "disk_next t \<le> disk_next t1" and root1: "root_offset t1 = root_offset t"
    and frame1: "\<And>q. q \<notin> set (fp (pages t) h c) \<Longrightarrow> q \<notin> set fl \<Longrightarrow> q < disk_next t \<Longrightarrow>
                    pages t1 q = pages t q"
    and dNN: "distinct ?NN"
    and NNsub: "set ?NN \<subseteq> set (fp (pages t) h c) \<union> set fl \<union> {q. disk_next t \<le> q}"
    and NNfl: "set ?NN \<inter> set fl1 = {}"
    and NNb: "\<And>q. q \<in> set ?NN \<Longrightarrow> PAGE_SIZE \<le> q \<and> q + PAGE_SIZE \<le> disk_next t1"
    and recs1: "concat (map (recs_of (pages t1) h) (outs c r1)) =
                upsert key dat (recs_of (pages t) h c)"
    and case1: "case r1 of
        None \<Rightarrow> sub (pages t1) h (minkeys h) c
      | Some (sk, nc) \<Rightarrow>
          sub (pages t1) h (minkeys h) c \<and> sub (pages t1) h (minkeys h) nc \<and>
          (\<forall>k \<in> keys_of (pages t1) h c. k < sk) \<and> (\<forall>k \<in> keys_of (pages t1) h nc. sk \<le> k)"
    using post unfolding ins_post_def by blast+
  have ds1: "disk_next t1 \<le> disk_size t1" using a1 by (simp add: alloc_ok_def)
  have frameF: "\<forall>q \<in> set ?F - set (fp (pages t) h c). pages t1 q = pages t q"
    using frame1 Ffl Flt by blast
  have frameP: "pages t1 p = pages t p" using frame1 [of p] pF cF pfl plt by blast
  have DD: "set ?NN \<inter> (set ?F - set (fp (pages t) h c)) = {}"
  proof -
    have "q \<notin> set ?NN" if "q \<in> set ?F" "q \<notin> set (fp (pages t) h c)" for q
      using that NNsub Ffl Flt [of q] by force
    then show ?thesis by blast
  qed
  have S1: "\<forall>x \<in> set (outs c r1). sub (pages t1) h (minkeys h) x"
    using case1 by (cases r1) (auto simp add: outs_def)
  have sep1: "case r1 of None \<Rightarrow> True
      | Some (sk, nc) \<Rightarrow> (\<forall>k \<in> keys_of (pages t1) h c. k < sk) \<and>
                         (\<forall>k \<in> keys_of (pages t1) h nc. sk \<le> k)"
    using case1 by (cases r1) auto
  define kcs' where "kcs' = (case r1 of None \<Rightarrow> kcs | Some (sk, nc) \<Rightarrow> insert_at i (sk, nc) kcs)"
  let ?F' = "concat (map (fp (pages t1) h) (children c0 kcs'))"
  note nu = node_update [OF v dF i_def c_def frameF dNN DD recs1 S1 sep1 kcs'_def]
  have F'sub: "set ?F' \<subseteq> set ?F \<union> set fl \<union> {q. disk_next t \<le> q}"
    unfolding nu(4) using NNsub cF by blast
  have F'fl: "set ?F' \<inter> set fl1 = {}"
    unfolding nu(4) using NNfl Ffl fl1 by blast
  have F'b: "\<And>q. q \<in> set ?F' \<Longrightarrow> PAGE_SIZE \<le> q \<and> q + PAGE_SIZE \<le> disk_next t1"
  proof -
    fix q assume "q \<in> set ?F'"
    then consider "q \<in> set ?F" | "q \<in> set ?NN" unfolding nu(4) by blast
    then show "PAGE_SIZE \<le> q \<and> q + PAGE_SIZE \<le> disk_next t1"
    proof cases
      case 1
      then show ?thesis using Fb [of q] dn1 by simp
    next
      case 2
      then show ?thesis using NNb by simp
    qed
  qed
  have pF': "p \<notin> set ?F'"
  proof -
    have "p \<notin> set ?NN" using NNsub pF cF pfl plt by force
    then show ?thesis unfolding nu(4) using pF by blast
  qed
  have pfl1: "p \<notin> set fl1" using pfl fl1 by blast
  have pin: "PinPage t p = Inr (Internal c0 kcs)"
    using PinPage_in [of p t] pb a pg by (simp add: alloc_ok_def)
  have pin1: "PinPage t1 p = Inr (Internal c0 kcs)"
    using PinPage_in [of p t1] pb dn1 ds1 frameP pg by simp
  have step: "InsertRecursive fuel t p key dat =
      (case r1 of None \<Rightarrow> Inr (t1, None)
       | Some (sk, nc) \<Rightarrow> InsertIntoInternal t1 p sk nc)"
    using f(1) pin rec [unfolded c_def i_def] by (simp add: Let_def split: option.splits)
  have frame_t1: "pages t1 q = pages t q"
    if "q \<notin> set (fp (pages t) (Suc h) p)" "q \<notin> set fl" "q < disk_next t" for q
    using that frame1 [of q] cF unfolding fpp by auto
  show ?case
  proof (cases r1)
    case None
    have k: "kcs' = kcs" using None by (simp add: kcs'_def)
    have p1: "pages t1 p = Internal c0 kcs'" using frameP pg k by simp
    note fit = vnode_fit [OF nu(1) p1 ml [folded k] lk [folded k]]
    have "ins_post t fl (Suc h) m p key dat t1 None fl1"
    proof (rule ins_postI_None [where NN = "p # ?F'"])
      show "alloc_ok t1 fl1" using a1 .
      show "set fl1 \<subseteq> set fl" using fl1 .
      show "disk_next t \<le> disk_next t1" using dn1 .
      show "root_offset t1 = root_offset t" using root1 .
      show "pages t1 q = pages t q"
        if "q \<notin> set (fp (pages t) (Suc h) p)" "q \<notin> set fl" "q < disk_next t" for q
        using frame_t1 [OF that] .
      show "fp (pages t1) (Suc h) p = p # ?F'" using fit(2) .
      show "distinct (p # ?F')" using nu(3) pF' by simp
      show "set (p # ?F') \<subseteq> set (fp (pages t) (Suc h) p) \<union> set fl \<union> {q. disk_next t \<le> q}"
        using F'sub unfolding fpp by auto
      show "set (p # ?F') \<inter> set fl1 = {}" using F'fl pfl1 by simp
      show "PAGE_SIZE \<le> q \<and> q + PAGE_SIZE \<le> disk_next t1" if "q \<in> set (p # ?F')" for q
        using that F'b [of q] pb dn1 by auto
      show "recs_of (pages t1) (Suc h) p = upsert key dat (recs_of (pages t) (Suc h) p)"
        using fit(3) nu(2) recp by simp
      show "sub (pages t1) (Suc h) m p" using fit(1) .
    qed
    moreover have "InsertRecursive fuel t p key dat = Inr (t1, None)"
      using step None by simp
    ultimately show ?thesis by blast
  next
    case (Some a)
    obtain sk nc where a: "a = (sk, nc)" by (cases a)
    have r1: "r1 = Some (sk, nc)" using Some a by simp
    have k: "kcs' = insert_at i (sk, nc) kcs" using r1 by (simp add: kcs'_def)
    have lenk: "length kcs' = Suc (length kcs)" using k by simp
    have subs: "sub (pages t1) h (minkeys h) c" "sub (pages t1) h (minkeys h) nc"
      and lo: "\<forall>k \<in> keys_of (pages t1) h c. k < sk"
      and hi: "\<forall>k \<in> keys_of (pages t1) h nc. sk \<le> k"
      using case1 r1 by simp_all
    have "recs_of (pages t1) h c @ recs_of (pages t1) h nc = upsert key dat (recs_of (pages t) h c)"
      using recs1 r1 by (simp add: outs_def)
    then have "set (recs_of (pages t1) h c) \<union> set (recs_of (pages t1) h nc) =
        set (upsert key dat (recs_of (pages t) h c))"
      using set_append [of "recs_of (pages t1) h c" "recs_of (pages t1) h nc"] by simp
    then have "keys_of (pages t1) h c \<union> keys_of (pages t1) h nc =
        insert key (keys_of (pages t) h c)"
      using keys_upsert [of key dat "recs_of (pages t) h c"]
      by (simp add: keys_of_def image_Un [symmetric])
    then have inc: "keys_of (pages t1) h c \<union> keys_of (pages t1) h nc \<subseteq>
        insert key (keys_of (pages t) h (ChildAt c0 kcs i))"
      by (simp add: c_def)
    note pos = sep_position [OF v i_def inc sub_keys_nonempty [OF subs(1)]
        sub_keys_nonempty [OF subs(2)] lo hi]
    show ?thesis
    proof (cases "length kcs < INTERNAL_MAX_KEYS")
      case True
      let ?t' = "UnpinPage t1 p (Internal c0 kcs')"
      have res: "InsertRecursive fuel t p key dat = Inr (?t', None)"
        using step r1 InsertIntoInternal_fit [OF pin1 True pos(2), of nc] k by simp
      have ag: "\<forall>q \<in> set ?F'. pages ?t' q = pages t1 q" using pF' by auto
      note va = vnode_agree [OF nu(1) ag]
      have p1: "pages ?t' p = Internal c0 kcs'" by simp
      have ml': "m \<le> length kcs'" using ml lenk by simp
      have lk': "length kcs' \<le> INTERNAL_MAX_KEYS" using True lenk by simp
      note fit = vnode_fit [OF va(1) p1 ml' lk']
      have F'': "concat (map (fp (pages ?t') h) (children c0 kcs')) = ?F'"
        using va(2) by (simp only:)
      have R'': "concat (map (recs_of (pages ?t') h) (children c0 kcs')) =
          concat (map (recs_of (pages t1) h) (children c0 kcs'))"
        using va(3) by (simp only:)
      have "ins_post t fl (Suc h) m p key dat ?t' None fl1"
      proof (rule ins_postI_None [where NN = "p # ?F'"])
        show "alloc_ok ?t' fl1" using alloc_ok_write [OF a1 pfl1] .
        show "set fl1 \<subseteq> set fl" using fl1 .
        show "disk_next t \<le> disk_next ?t'" using dn1 by simp
        show "root_offset ?t' = root_offset t" using root1 by simp
        show "pages ?t' q = pages t q"
          if "q \<notin> set (fp (pages t) (Suc h) p)" "q \<notin> set fl" "q < disk_next t" for q
          using frame_t1 [OF that] that(1) unfolding fpp by simp
        show "fp (pages ?t') (Suc h) p = p # ?F'" using fit(2) F'' by (simp only:)
        show "distinct (p # ?F')" using nu(3) pF' by simp
        show "set (p # ?F') \<subseteq> set (fp (pages t) (Suc h) p) \<union> set fl \<union> {q. disk_next t \<le> q}"
          using F'sub unfolding fpp by auto
        show "set (p # ?F') \<inter> set fl1 = {}" using F'fl pfl1 by simp
        show "PAGE_SIZE \<le> q \<and> q + PAGE_SIZE \<le> disk_next ?t'" if "q \<in> set (p # ?F')" for q
          using that F'b [of q] pb dn1 by auto
        show "recs_of (pages ?t') (Suc h) p = upsert key dat (recs_of (pages t) (Suc h) p)"
          using fit(3) R'' nu(2) recp by (simp only:)
        show "sub (pages ?t') (Suc h) m p" using fit(1) .
      qed
      then show ?thesis using res by blast
    next
      case False
      then have full: "length kcs = INTERNAL_MAX_KEYS" using lk by simp
      have len101: "length kcs' = 101" using full lenk by (simp add: INTERNAL_MAX_KEYS_def)
      obtain np t2 fl2 where al: "AllocPage t1 = Inr (np, t2)" "alloc_ok t2 fl2"
        "pages t2 = (pages t1)(np := zero_page)" "np \<notin> set fl2" "PAGE_SIZE \<le> np"
        "np + PAGE_SIZE \<le> disk_next t2" "np \<in> set fl1 \<or> disk_next t1 \<le> np"
        "set fl2 \<subseteq> set fl1" "disk_next t1 \<le> disk_next t2" "root_offset t2 = root_offset t1"
        using AllocPage_ok [OF a1] by blast
      have ds2: "disk_next t2 \<le> disk_size t2" using al(2) by (simp add: alloc_ok_def)
      have npp: "np \<noteq> p" using al(7) pfl1 pb dn1 PAGE_SIZE_pos by auto
      have npF': "np \<notin> set ?F'"
      proof
        assume "np \<in> set ?F'"
        then have "np \<notin> set fl1" "np + PAGE_SIZE \<le> disk_next t1"
          using F'fl F'b [of np] by auto
        then show False using al(7) PAGE_SIZE_pos by auto
      qed
      let ?X = "Internal (ChildAt c0 kcs' (Suc 50)) (drop (Suc 50) kcs')"
      let ?Y = "Internal c0 (take 50 kcs')"
      let ?t' = "UnpinPage (UnpinPage t2 np ?X) p ?Y"
      have p2: "\<forall>l. pages t2 p \<noteq> Freed l" using al(3) npp frameP pg by simp
      have pb2: "p + PAGE_SIZE \<le> disk_size t2" using pb dn1 al(9) ds2 by simp
      have res: "InsertRecursive fuel t p key dat = Inr (?t', Some (fst (kcs' ! 50), np))"
        using step r1
          InsertIntoInternal_split [OF pin1 full pos(1) al(1) npp pb(1) pb2 p2 k]
        by simp
      have ag: "\<forall>q \<in> set ?F'. pages ?t' q = pages t1 q" using pF' npF' al(3) by auto
      note va = vnode_agree [OF nu(1) ag]
      have pp: "pages ?t' p = ?Y" by simp
      have pn: "pages ?t' np = ?X" using npp by simp
      have mid: "50 < length kcs'" using len101 by simp
      have b: "minkeys (Suc h) \<le> 50" "(50 :: nat) \<le> INTERNAL_MAX_KEYS"
        "minkeys (Suc h) \<le> length kcs' - Suc 50" "length kcs' - Suc 50 \<le> INTERNAL_MAX_KEYS"
        using len101 by (simp_all add: minkeys_def INTERNAL_MIN_KEYS_def INTERNAL_MAX_KEYS_def)
      note sp = vnode_split [OF va(1) mid pp pn b]
      define A where "A = concat (map (fp (pages ?t') h) (take (Suc 50) (children c0 kcs')))"
      define B where "B = concat (map (fp (pages ?t') h) (drop (Suc 50) (children c0 kcs')))"
      have "A @ B = concat (map (fp (pages ?t') h) (children c0 kcs'))"
        unfolding A_def B_def by (rule concat_map_take_drop)
      then have AB: "A @ B = ?F'" using va(2) by (simp only:)
      have setAB: "set A \<union> set B = set ?F'" using arg_cong [OF AB, of set] by simp
      have dAB: "distinct (A @ B)" using nu(3) AB by (simp only:)
      have fpp': "fp (pages ?t') (Suc h) p = p # A" using sp(3) by (simp only: A_def)
      have fpn': "fp (pages ?t') (Suc h) np = np # B" using sp(4) by (simp only: B_def)
      have R'': "concat (map (recs_of (pages ?t') h) (children c0 kcs')) =
          concat (map (recs_of (pages t1) h) (children c0 kcs'))"
        using va(3) by (simp only:)
      have pfl2: "p \<notin> set fl2" using pfl1 al(8) by blast
      have "ins_post t fl (Suc h) m p key dat ?t' (Some (fst (kcs' ! 50), np)) fl2"
      proof (rule ins_postI_Some [where NN = "p # A @ np # B"])
        show "alloc_ok ?t' fl2" using alloc_ok_write [OF alloc_ok_write [OF al(2) al(4)] pfl2] .
        show "set fl2 \<subseteq> set fl" using al(8) fl1 by blast
        show "disk_next t \<le> disk_next ?t'" using dn1 al(9) by simp
        show "root_offset ?t' = root_offset t" using root1 al(10) by simp
        show "pages ?t' q = pages t q"
          if "q \<notin> set (fp (pages t) (Suc h) p)" "q \<notin> set fl" "q < disk_next t" for q
        proof -
          have "q \<noteq> p" using that(1) unfolding fpp by simp
          moreover have "q \<noteq> np" using that(2,3) al(7) fl1 dn1 by auto
          ultimately have "pages ?t' q = pages t1 q" using al(3) by simp
          then show ?thesis using frame_t1 [OF that] by simp
        qed
        show "fp (pages ?t') (Suc h) p @ fp (pages ?t') (Suc h) np = p # A @ np # B"
          using fpp' fpn' by simp
        show "distinct (p # A @ np # B)"
          using dAB setAB pF' npF' npp by auto
        show "set (p # A @ np # B) \<subseteq>
            set (fp (pages t) (Suc h) p) \<union> set fl \<union> {q. disk_next t \<le> q}"
        proof -
          have "np \<in> set fl \<or> disk_next t \<le> np" using al(7) fl1 dn1 by auto
          then show ?thesis using F'sub setAB unfolding fpp by auto
        qed
        show "set (p # A @ np # B) \<inter> set fl2 = {}"
          using F'fl setAB pfl2 al(4,8) by auto
        show "PAGE_SIZE \<le> q \<and> q + PAGE_SIZE \<le> disk_next ?t'"
          if qq: "q \<in> set (p # A @ np # B)" for q
        proof -
          have "q = p \<or> q = np \<or> q \<in> set A \<union> set B" using qq by auto
          then consider "q = p" | "q = np" | "q \<in> set ?F'" unfolding setAB by blast
          then show ?thesis
          proof cases
            case 1
            then show ?thesis using pb dn1 al(9) by simp
          next
            case 2
            then show ?thesis using al(5,6) by simp
          next
            case 3
            then show ?thesis using F'b [of q] al(9) by simp
          qed
        qed
        show "recs_of (pages ?t') (Suc h) p @ recs_of (pages ?t') (Suc h) np =
            upsert key dat (recs_of (pages t) (Suc h) p)"
          using sp(5) R'' nu(2) recp by (simp only:)
        show "sub (pages ?t') (Suc h) (minkeys (Suc h)) p" using sp(1) .
        show "sub (pages ?t') (Suc h) (minkeys (Suc h)) np" using sp(2) .
        show "k < fst (kcs' ! 50)" if "k \<in> keys_of (pages ?t') (Suc h) p" for k
          using sp(6) that by blast
        show "fst (kcs' ! 50) \<le> k" if "k \<in> keys_of (pages ?t') (Suc h) np" for k
          using sp(7) that by blast
      qed
      then show ?thesis using res by blast
    qed
  qed
qed


section \<open>Properties of the tree: Insert and Search\<close>

lemma alloc_ok_meta: "alloc_ok t fl \<Longrightarrow> alloc_ok (WriteMetadata (t\<lparr>root_offset := r\<rparr>)) fl"
  by (simp add: alloc_ok_def WriteMetadata_def)

lemma WriteMetadata_root_fields [simp]:
  "pages (WriteMetadata (t\<lparr>root_offset := r\<rparr>)) = pages t"
  "root_offset (WriteMetadata (t\<lparr>root_offset := r\<rparr>)) = r"
  "disk_next (WriteMetadata (t\<lparr>root_offset := r\<rparr>)) = next_page_offset t"
  by (simp_all add: WriteMetadata_def)

lemma tree_okI:
  assumes "alloc_ok t fl" "sub (pages t) h 1 (root_offset t)"
    "distinct (fp (pages t) h (root_offset t))"
    "set (fp (pages t) h (root_offset t)) \<inter> set fl = {}"
    "\<And>q. q \<in> set (fp (pages t) h (root_offset t)) \<Longrightarrow>
          PAGE_SIZE \<le> q \<and> q + PAGE_SIZE \<le> disk_next t"
  shows "tree_ok t h fl"
proof -
  have "PAGE_SIZE \<le> root_offset t" using assms(5) fp_self by blast
  then have "root_offset t \<noteq> INVALID_PAGE_ID" by (simp add: PAGE_SIZE_def INVALID_PAGE_ID_def)
  moreover have "distinct fl" using assms(1) by (simp add: alloc_ok_def)
  ultimately show ?thesis using assms by (simp add: tree_ok_def)
qed

lemma tree_okD:
  assumes "tree_ok t h fl" "root_offset t \<noteq> INVALID_PAGE_ID"
  shows "sub (pages t) h 1 (root_offset t)" and "owned t fl h (root_offset t)"
  using assms by (simp_all add: tree_ok_def owned_def)

lemma tree_ok_alloc: "tree_ok t h fl \<Longrightarrow> alloc_ok t fl"
  by (simp add: tree_ok_def)

lemma Insert_ok:
  assumes ok: "tree_ok t h fl" and fuel: "h < fuel"
  shows "\<exists>t' h' fl'. Insert fuel t key dat = Inr (OK, t') \<and> tree_ok t' h' fl' \<and>
           (h' = h \<or> h' = Suc h) \<and>
           contents t' h' = upsert key (padded dat) (contents t h)"
proof (cases "root_offset t = INVALID_PAGE_ID")
  case True
  have h0: "h = 0" using ok True by (simp add: tree_ok_def)
  obtain np t1 fl1 where al: "AllocPage t = Inr (np, t1)" "alloc_ok t1 fl1"
    "pages t1 = (pages t)(np := zero_page)" "np \<notin> set fl1" "PAGE_SIZE \<le> np"
    "np + PAGE_SIZE \<le> disk_next t1" "np \<in> set fl \<or> disk_next t \<le> np"
    "set fl1 \<subseteq> set fl" "disk_next t \<le> disk_next t1" "root_offset t1 = root_offset t"
    using AllocPage_ok [OF tree_ok_alloc [OF ok]] by blast
  let ?t' = "WriteMetadata ((UnpinPage t1 np (Leaf [(key, padded dat)] INVALID_PAGE_ID))
                \<lparr>root_offset := np\<rparr>)"
  have res: "Insert fuel t key dat = Inr (OK, ?t')" using True al(1) by (simp add: Insert_def)
  have n1: "next_page_offset t1 = disk_next t1" using al(2) by (simp add: alloc_ok_def)
  have "tree_ok ?t' 0 fl1"
  proof (rule tree_okI)
    show "alloc_ok ?t' fl1" using alloc_ok_meta [OF alloc_ok_write [OF al(2) al(4)]] .
    show "sub (pages ?t') 0 1 (root_offset ?t')" by (simp add: LEAF_MAX_KEYS_def)
    show "distinct (fp (pages ?t') 0 (root_offset ?t'))" by simp
    show "set (fp (pages ?t') 0 (root_offset ?t')) \<inter> set fl1 = {}" using al(4) by simp
    show "PAGE_SIZE \<le> q \<and> q + PAGE_SIZE \<le> disk_next ?t'"
      if "q \<in> set (fp (pages ?t') 0 (root_offset ?t'))" for q
      using that al(5,6) n1 by simp
  qed
  moreover have "contents ?t' 0 = upsert key (padded dat) (contents t h)"
    using True al(5) by (simp add: contents_def INVALID_PAGE_ID_def PAGE_SIZE_def)
  ultimately show ?thesis using res h0 by blast
next
  case False
  let ?p = "root_offset t"
  note rt = tree_okD [OF ok False]
  obtain t1 r fl1 where rec: "InsertRecursive fuel t ?p key (padded dat) = Inr (t1, r)"
    and post: "ins_post t fl h 1 ?p key (padded dat) t1 r fl1"
    using InsertRecursive_ok [OF rt fuel] by blast
  let ?NN = "concat (map (fp (pages t1) h) (outs ?p r))"
  have a1: "alloc_ok t1 fl1" and fl1: "set fl1 \<subseteq> set fl"
    and dn1: "disk_next t \<le> disk_next t1" and root1: "root_offset t1 = root_offset t"
    and dNN: "distinct ?NN"
    and NNfl: "set ?NN \<inter> set fl1 = {}"
    and NNb: "\<And>q. q \<in> set ?NN \<Longrightarrow> PAGE_SIZE \<le> q \<and> q + PAGE_SIZE \<le> disk_next t1"
    and recs1: "concat (map (recs_of (pages t1) h) (outs ?p r)) =
                upsert key (padded dat) (recs_of (pages t) h ?p)"
    and case1: "case r of
        None \<Rightarrow> sub (pages t1) h 1 ?p
      | Some (sk, nc) \<Rightarrow>
          sub (pages t1) h (minkeys h) ?p \<and> sub (pages t1) h (minkeys h) nc \<and>
          (\<forall>k \<in> keys_of (pages t1) h ?p. k < sk) \<and> (\<forall>k \<in> keys_of (pages t1) h nc. sk \<le> k)"
    using post unfolding ins_post_def by blast+
  have cont: "contents t h = recs_of (pages t) h ?p" using False by (simp add: contents_def)
  show ?thesis
  proof (cases r)
    case None
    have res: "Insert fuel t key dat = Inr (OK, t1)"
      using False rec None by (simp add: Insert_def)
    have "tree_ok t1 h fl1"
    proof (rule tree_okI)
      show "alloc_ok t1 fl1" using a1 .
      show "sub (pages t1) h 1 (root_offset t1)" using case1 None root1 by simp
      show "distinct (fp (pages t1) h (root_offset t1))"
        using dNN None root1 by (simp add: outs_def)
      show "set (fp (pages t1) h (root_offset t1)) \<inter> set fl1 = {}"
        using NNfl None root1 by (simp add: outs_def)
      show "PAGE_SIZE \<le> q \<and> q + PAGE_SIZE \<le> disk_next t1"
        if "q \<in> set (fp (pages t1) h (root_offset t1))" for q
        using that NNb [of q] None root1 by (simp add: outs_def)
    qed
    moreover have "root_offset t1 \<noteq> INVALID_PAGE_ID" using root1 False by simp
    then have "contents t1 h = upsert key (padded dat) (contents t h)"
      using recs1 None root1 cont by (simp add: contents_def outs_def)
    ultimately show ?thesis using res by blast
  next
    case (Some a)
    obtain sk nc where a: "a = (sk, nc)" by (cases a)
    have r: "r = Some (sk, nc)" using Some a by simp
    have NN: "?NN = fp (pages t1) h ?p @ fp (pages t1) h nc" using r by (simp add: outs_def)
    have subs: "sub (pages t1) h (minkeys h) ?p" "sub (pages t1) h (minkeys h) nc"
      and lo: "\<forall>k \<in> keys_of (pages t1) h ?p. k < sk"
      and hi: "\<forall>k \<in> keys_of (pages t1) h nc. sk \<le> k"
      using case1 r by simp_all
    obtain nr t2 fl2 where al: "AllocPage t1 = Inr (nr, t2)" "alloc_ok t2 fl2"
      "pages t2 = (pages t1)(nr := zero_page)" "nr \<notin> set fl2" "PAGE_SIZE \<le> nr"
      "nr + PAGE_SIZE \<le> disk_next t2" "nr \<in> set fl1 \<or> disk_next t1 \<le> nr"
      "set fl2 \<subseteq> set fl1" "disk_next t1 \<le> disk_next t2" "root_offset t2 = root_offset t1"
      using AllocPage_ok [OF a1] by blast
    have n2: "next_page_offset t2 = disk_next t2" using al(2) by (simp add: alloc_ok_def)
    let ?kcs = "[(sk, nc)]"
    let ?t' = "WriteMetadata ((UnpinPage t2 nr (Internal ?p ?kcs))\<lparr>root_offset := nr\<rparr>)"
    have res: "Insert fuel t key dat = Inr (OK, ?t')"
      using False rec r al(1,10) root1 by (simp add: Insert_def)
    have nrNN: "nr \<notin> set ?NN"
    proof
      assume "nr \<in> set ?NN"
      then have "nr \<notin> set fl1" "nr + PAGE_SIZE \<le> disk_next t1"
        using NNfl NNb [of nr] by auto
      then show False using al(7) PAGE_SIZE_pos by auto
    qed
    have pg': "pages ?t' = (pages t1)(nr := Internal ?p ?kcs)" using al(3) by simp
    have ch: "children ?p ?kcs = [?p, nc]" by (simp add: children_def)
    have v1: "vnode (pages t1) h ?p ?kcs"
      using subs lo hi by (simp add: vnode_def ch seps_ok_def ChildAt_def)
    have ag: "\<forall>q \<in> set (concat (map (fp (pages t1) h) (children ?p ?kcs))). pages ?t' q = pages t1 q"
      using nrNN unfolding pg' ch NN by auto
    note va = vnode_agree [OF v1 ag]
    have pr: "pages ?t' nr = Internal ?p ?kcs" unfolding pg' by simp
    have b: "1 \<le> length ?kcs" "length ?kcs \<le> INTERNAL_MAX_KEYS"
      by (simp_all add: INTERNAL_MAX_KEYS_def)
    note fit = vnode_fit [OF va(1) pr b]
    have oc: "outs ?p r = children ?p ?kcs" by (simp add: r outs_def children_def)
    have F: "concat (map (fp (pages ?t') h) (children ?p ?kcs)) = ?NN"
      using va(2) by (simp only: oc)
    have R: "concat (map (recs_of (pages ?t') h) (children ?p ?kcs)) =
        concat (map (recs_of (pages t1) h) (outs ?p r))"
      using va(3) by (simp only: oc)
    have fpr: "fp (pages ?t') (Suc h) nr = nr # ?NN" using fit(2) F by (simp only:)
    have rt': "root_offset ?t' = nr" by simp
    have "tree_ok ?t' (Suc h) fl2"
    proof (rule tree_okI)
      show "alloc_ok ?t' fl2" using alloc_ok_meta [OF alloc_ok_write [OF al(2) al(4)]] .
      show "sub (pages ?t') (Suc h) 1 (root_offset ?t')" unfolding rt' using fit(1) .
      show "distinct (fp (pages ?t') (Suc h) (root_offset ?t'))"
        unfolding rt' fpr using dNN nrNN by simp
      show "set (fp (pages ?t') (Suc h) (root_offset ?t')) \<inter> set fl2 = {}"
        unfolding rt' fpr using NNfl al(4,8) by auto
      show "PAGE_SIZE \<le> q \<and> q + PAGE_SIZE \<le> disk_next ?t'"
        if qq: "q \<in> set (fp (pages ?t') (Suc h) (root_offset ?t'))" for q
      proof -
        have "q = nr \<or> q \<in> set ?NN" using qq unfolding rt' fpr by simp
        then show ?thesis
        proof
          assume "q = nr"
          then show ?thesis using al(5,6) n2 by simp
        next
          assume "q \<in> set ?NN"
          then have "PAGE_SIZE \<le> q \<and> q + PAGE_SIZE \<le> disk_next t1" by (rule NNb)
          then show ?thesis using al(9) n2 by simp
        qed
      qed
    qed
    moreover have "nr \<noteq> INVALID_PAGE_ID" using al(5) by (simp add: PAGE_SIZE_def INVALID_PAGE_ID_def)
    then have "contents ?t' (Suc h) = recs_of (pages ?t') (Suc h) nr"
      by (simp add: contents_def)
    then have "contents ?t' (Suc h) = upsert key (padded dat) (contents t h)"
      using fit(3) R recs1 cont by (simp only:)
    ultimately show ?thesis using res by blast
  qed
qed

lemma Search_ok:
  assumes ok: "tree_ok t h fl" and fuel: "h < fuel"
  shows "Search fuel t key =
         Inr (case find_record (contents t h) key of
                Some d \<Rightarrow> (OK, Some d) | None \<Rightarrow> (NotFound, None))"
proof (cases "root_offset t = INVALID_PAGE_ID")
  case True
  then show ?thesis by (simp add: Search_def SearchLeaf_def contents_def)
next
  case False
  let ?p = "root_offset t"
  note rt = tree_okD [OF ok False]
  have ds: "disk_next t \<le> disk_size t" using ok by (simp add: tree_ok_def alloc_ok_def)
  have pn: "pinnable t (set (fp (pages t) h ?p))"
    using rt(2) ds by (auto simp add: pinnable_def owned_def)
  obtain l recs nx where l: "descend fuel t ?p key = Inr l" "l \<in> set (fp (pages t) h ?p)"
    "pages t l = Leaf recs nx" "find_record recs key = find_record (recs_of (pages t) h ?p) key"
    using descend_ok [OF rt(1) pn fuel, of key] by blast
  have lb: "PAGE_SIZE \<le> l" using pn l(2) by (simp add: pinnable_def)
  then have li: "l \<noteq> INVALID_PAGE_ID" by (simp add: PAGE_SIZE_def INVALID_PAGE_ID_def)
  have pin: "PinPage t l = Inr (Leaf recs nx)" using PinPage_Leaf [OF pn l(2,3)] .
  show ?thesis
    using False l(1,4) li pin
    by (simp add: Search_def SearchLeaf_def contents_def split: option.splits)
qed

lemma trimmed_padded:
  assumes "NUL \<notin> set v" "length v \<le> DATA_SIZE"
  shows "trimmed (padded v) = v"
proof -
  have a: "takeWhile (\<lambda>c. c \<noteq> NUL) v = v"
    using assms(1) by (auto simp add: takeWhile_eq_all_conv)
  have "padded v = v @ replicate (DATA_SIZE - length v) NUL"
    using assms(2) by (simp add: padded_def a)
  moreover have "takeWhile (\<lambda>c. c \<noteq> NUL) (v @ replicate n NUL) = v" for n
  proof -
    have "takeWhile (\<lambda>c. c \<noteq> NUL) (v @ replicate n NUL) =
        v @ takeWhile (\<lambda>c. c \<noteq> NUL) (replicate n NUL)"
      by (rule takeWhile_append2) (use assms(1) in blast)
    then show ?thesis by (cases n) simp_all
  qed
  ultimately show ?thesis using assms(2) by (simp add: trimmed_def)
qed

lemma tree_ok_new: "tree_ok new_tree 0 []"
  by (simp add: tree_ok_def alloc_ok_def new_tree_def)

lemma run_inserts:
  "tree_ok t h fl \<Longrightarrow> h + length kvs < fuel \<Longrightarrow>
   \<exists>t' h' fl'. run fuel t (map (\<lambda>kv. InsertOp (fst kv) (snd kv)) kvs) = Inr t' \<and>
     tree_ok t' h' fl' \<and> h' \<le> h + length kvs \<and>
     contents t' h' = foldl (\<lambda>xs kv. upsert (fst kv) (padded (snd kv)) xs) (contents t h) kvs"
proof (induction kvs arbitrary: t h fl)
  case Nil
  then show ?case by auto
next
  case (Cons kv kvs)
  have "h < fuel" using Cons.prems(2) by simp
  then obtain t1 h1 fl1 where s: "Insert fuel t (fst kv) (snd kv) = Inr (OK, t1)"
    "tree_ok t1 h1 fl1" "h1 = h \<or> h1 = Suc h"
    "contents t1 h1 = upsert (fst kv) (padded (snd kv)) (contents t h)"
    using Insert_ok [OF Cons.prems(1), of fuel "fst kv" "snd kv"] by blast
  have "h1 + length kvs < fuel" using s(3) Cons.prems(2) by auto
  then obtain t' h' fl' where r:
    "run fuel t1 (map (\<lambda>kv. InsertOp (fst kv) (snd kv)) kvs) = Inr t'"
    "tree_ok t' h' fl'" "h' \<le> h1 + length kvs"
    "contents t' h' =
       foldl (\<lambda>xs kv. upsert (fst kv) (padded (snd kv)) xs) (contents t1 h1) kvs"
    using Cons.IH [OF s(2)] by blast
  have "run fuel t (map (\<lambda>kv. InsertOp (fst kv) (snd kv)) (kv # kvs)) = Inr t'"
    using s(1) r(1) by simp
  moreover have "h' \<le> h + length (kv # kvs)" using r(3) s(3) by auto
  moreover have "contents t' h' =
      foldl (\<lambda>xs kv. upsert (fst kv) (padded (snd kv)) xs) (contents t h) (kv # kvs)"
    using r(4) s(4) by simp
  ultimately show ?case using r(2) by blast
qed

lemma find_record_foldl_other:
  "k \<notin> fst ` set kvs \<Longrightarrow>
   find_record (foldl (\<lambda>xs kv. upsert (fst kv) (padded (snd kv)) xs) xs kvs) k =
   find_record xs k"
  by (induction kvs arbitrary: xs) (auto simp add: find_record_upsert)

lemma find_record_foldl:
  "distinct (map fst kvs) \<Longrightarrow> kv \<in> set kvs \<Longrightarrow>
   find_record (foldl (\<lambda>xs kv. upsert (fst kv) (padded (snd kv)) xs) xs kvs) (fst kv) =
   Some (padded (snd kv))"
proof (induction kvs arbitrary: xs)
  case Nil
  then show ?case by simp
next
  case (Cons x kvs)
  show ?case
  proof (cases "kv = x")
    case True
    then have "fst kv \<notin> fst ` set kvs" using Cons.prems(1) by simp
    then show ?thesis
      using find_record_foldl_other [of "fst kv" kvs] True by (simp add: find_record_upsert)
  next
    case False
    then show ?thesis using Cons by simp
  qed
qed

text \<open>
  Claim C1.  Starting from the empty tree, insert records with pairwise different keys
  whose payloads are C strings of at most \<open>DATA_SIZE\<close> = 100 bytes.  Every insert
  returns, and afterwards the search for each of the keys returns \<open>OK\<close> together with
  the payload that was inserted under it, the padding removed.  (The bound on the depth
  of the descents only has to exceed the number of inserts.)
\<close>

theorem inserts_then_search_returns_payload:
  assumes "distinct (map fst kvs)"
    and "\<forall>kv \<in> set kvs. NUL \<notin> set (snd kv) \<and> length (snd kv) \<le> DATA_SIZE"
    and "length kvs < fuel"
  shows "\<exists>t. run fuel new_tree (map (\<lambda>kv. InsertOp (fst kv) (snd kv)) kvs) = Inr t \<and>
           (\<forall>kv \<in> set kvs. SearchString fuel t (fst kv) = Inr (OK, Some (snd kv)))"
proof -
  obtain t h fl where r: "run fuel new_tree (map (\<lambda>kv. InsertOp (fst kv) (snd kv)) kvs) = Inr t"
    "tree_ok t h fl" "h \<le> 0 + length kvs"
    "contents t h =
       foldl (\<lambda>xs kv. upsert (fst kv) (padded (snd kv)) xs) (contents new_tree 0) kvs"
    using run_inserts [OF tree_ok_new, of kvs fuel] assms(3) by auto
  have hf: "h < fuel" using r(3) assms(3) by simp
  have "SearchString fuel t (fst kv) = Inr (OK, Some (snd kv))" if kv: "kv \<in> set kvs" for kv
  proof -
    have "find_record (contents t h) (fst kv) = Some (padded (snd kv))"
      using find_record_foldl [OF assms(1) kv] r(4) by simp
    then have "Search fuel t (fst kv) = Inr (OK, Some (padded (snd kv)))"
      using Search_ok [OF r(2) hf, of "fst kv"] by simp
    moreover have "trimmed (padded (snd kv)) = snd kv"
      using trimmed_padded [of "snd kv"] assms(2) kv by simp
    ultimately show ?thesis by (simp add: SearchString_def)
  qed
  then show ?thesis using r(1) by blast
qed

theorem inserts_then_search_returns_payload_witness:
  "\<exists>t. run 3 new_tree [InsertOp 20 ''twenty'', InsertOp 10 ''ten''] = Inr t \<and>
       SearchString 3 t 20 = Inr (OK, Some ''twenty'') \<and>
       SearchString 3 t 10 = Inr (OK, Some ''ten'')"
  using inserts_then_search_returns_payload [of "[(20, ''twenty''), (10, ''ten'')]" 3]
  by (simp add: NUL_def DATA_SIZE_def)

end
